theory Spec2Isabelle
  imports Complex_Main "HOL-Library.Word"
begin

unbundle bit_operations_syntax

section \<open>JavaScript values used by the fountain-code engine\<close>

text \<open>
  A JavaScript number that holds an integer is an \<open>int\<close>; a byte of a \<open>Uint8Array\<close> is
  an \<open>8 word\<close>; an element of a \<open>Uint32Array\<close> is a \<open>32 word\<close>. The bitwise operators of
  JavaScript convert their operands to 32 bits first: \<open>^\<close> and \<open>&\<close> give a signed 32-bit
  result (ToInt32), \<open>>>>\<close> gives an unsigned one (ToUint32).
\<close>

type_synonym u8 = "8 word"
type_synonym u32 = "32 word"

datatype error = RangeError | TypeError

definition ToUint32 :: "int \<Rightarrow> u32" where
  "ToUint32 n = word_of_int n"

definition js_xor :: "int \<Rightarrow> int \<Rightarrow> int" where
  "js_xor a b = sint (ToUint32 a XOR ToUint32 b)"

definition js_and :: "int \<Rightarrow> int \<Rightarrow> int" where
  "js_and a b = sint (ToUint32 a AND ToUint32 b)"

definition js_ushr :: "int \<Rightarrow> nat \<Rightarrow> int" where
  "js_ushr a n = uint (drop_bit (n mod 32) (ToUint32 a))"

section \<open>Checksum (src/unnamed/part_000)\<close>

text \<open>
  The table's inner loop \<open>for (j = 0; j < 8; j++) crc = (crc & 1) ? (0xEDB88320 ^ (crc >>> 1))
  : (crc >>> 1)\<close>, run \<open>n\<close> times.
\<close>

primrec CRC_TABLE_inner :: "nat \<Rightarrow> int \<Rightarrow> int" where
  "CRC_TABLE_inner 0 crc = crc"
| "CRC_TABLE_inner (Suc n) crc =
     CRC_TABLE_inner n
       (if js_and crc 1 \<noteq> 0 then js_xor 0xEDB88320 (js_ushr crc 1) else js_ushr crc 1)"

text \<open>\<open>table[i] = crc\<close> stores into a \<open>Uint32Array\<close>: the entry reads back unsigned.\<close>

definition CRC_TABLE_entry :: "nat \<Rightarrow> int" where
  "CRC_TABLE_entry i = uint (ToUint32 (CRC_TABLE_inner 8 (int i)))"

definition CRC_TABLE :: "int list" where
  "CRC_TABLE = map CRC_TABLE_entry [0..<256]"

text \<open>
  The loop of \<open>crc32\<close> over the bytes of \<open>buf\<close>. The index \<open>(crc ^ buf[i]) & 0xFF\<close> is
  in \<open>[0, 255]\<close>, inside the table.
\<close>

fun crc32_loop :: "int \<Rightarrow> u8 list \<Rightarrow> int" where
  "crc32_loop crc [] = crc"
| "crc32_loop crc (b # buf) =
     crc32_loop (js_xor (js_ushr crc 8) (CRC_TABLE ! nat (js_and (js_xor crc (uint b)) 0xFF))) buf"

definition crc32 :: "u8 list \<Rightarrow> int" where
  "crc32 buf = js_ushr (js_xor (crc32_loop 0xFFFFFFFF buf) 0xFFFFFFFF) 0"

definition getChecksum :: "u8 list \<Rightarrow> int \<Rightarrow> int" where
  "getChecksum data k = js_xor (crc32 data) k"

section \<open>Block codec (src/unnamed/part_001)\<close>

text \<open>The fields of an \<open>EncodedBlock\<close>, each with the prefix \<open>block_\<close>.\<close>

record EncodedBlock =
  block_k :: int
  block_bytes :: int
  block_checksum :: int
  block_indices :: "int list"
  block_data :: "u8 list"

text \<open>
  \<open>new Uint8Array(header.buffer)\<close> reads the bytes of a \<open>Uint32Array\<close> as they lie in
  memory. ECMAScript stores typed-array elements in the byte order of the host, so that
  order is a parameter of the encoder: \<open>LittleEndian\<close> on x86 and ARM.
\<close>

datatype endianness = LittleEndian | BigEndian

definition word_bytes :: "endianness \<Rightarrow> u32 \<Rightarrow> u8 list" where
  "word_bytes host w =
     (case host of
        BigEndian \<Rightarrow> [ucast (drop_bit 24 w), ucast (drop_bit 16 w), ucast (drop_bit 8 w), ucast w]
      | LittleEndian \<Rightarrow> [ucast w, ucast (drop_bit 8 w), ucast (drop_bit 16 w), ucast (drop_bit 24 w)])"

text \<open>\<open>new Uint8Array(new Uint32Array(xs).buffer)\<close>: each number goes through ToUint32.\<close>

definition Uint32Array_bytes :: "endianness \<Rightarrow> int list \<Rightarrow> u8 list" where
  "Uint32Array_bytes host xs = concat (map (\<lambda>x. word_bytes host (ToUint32 x)) xs)"

text \<open>
  \<open>target.set(source, offset)\<close> on typed arrays: a RangeError when the source does not
  fit, otherwise the elements from \<open>offset\<close> on are overwritten.
\<close>

definition typed_set :: "u8 list \<Rightarrow> u8 list \<Rightarrow> nat \<Rightarrow> error + u8 list" where
  "typed_set target source offset =
     (if offset + length source > length target then Inl RangeError
      else Inr (take offset target @ source @ drop (offset + length source) target))"

definition blockToBinary :: "endianness \<Rightarrow> EncodedBlock \<Rightarrow> error + u8 list" where
  "blockToBinary host block =
     (let header = [int (length (block_indices block))] @ block_indices block
                     @ [block_k block, block_bytes block, block_checksum block];
          binary = replicate (length header * 4 + length (block_data block)) (0 :: u8);
          offset = 0
      in case typed_set binary (Uint32Array_bytes host header) offset of
           Inl e \<Rightarrow> Inl e
         | Inr binary \<Rightarrow>
             (let offset = offset + length header * 4
              in typed_set binary (block_data block) offset))"

text \<open>
  A \<open>Uint8Array\<close> is a window of \<open>length\<close> bytes at \<open>byteOffset\<close> into its \<open>ArrayBuffer\<close>.
  \<open>Uint8Array_of\<close> is the array that spans a buffer of its own, as \<open>blockToBinary\<close>
  returns it.
\<close>

record Uint8Array =
  array_buffer :: "u8 list"
  array_byteOffset :: nat
  array_length :: nat

definition Uint8Array_of :: "u8 list \<Rightarrow> Uint8Array" where
  "Uint8Array_of bs = \<lparr>array_buffer = bs, array_byteOffset = 0, array_length = length bs\<rparr>"

text \<open>
  \<open>new DataView(binary.buffer, binary.byteOffset)\<close> sees the buffer from \<open>byteOffset\<close> to
  its end. \<open>getUint32(pos, false)\<close> reads four bytes big-endian and raises a RangeError
  when they are not all inside the view.
\<close>

definition DataView :: "u8 list \<Rightarrow> nat \<Rightarrow> u8 list" where
  "DataView buf off = drop off buf"

definition be_word :: "u8 \<Rightarrow> u8 \<Rightarrow> u8 \<Rightarrow> u8 \<Rightarrow> u32" where
  "be_word b0 b1 b2 b3 =
     push_bit 24 (ucast b0) OR push_bit 16 (ucast b1) OR push_bit 8 (ucast b2) OR ucast b3"

definition getUint32 :: "u8 list \<Rightarrow> nat \<Rightarrow> error + int" where
  "getUint32 dataView pos =
     (if pos + 4 \<le> length dataView
      then Inr (uint (be_word (dataView ! pos) (dataView ! (pos + 1))
                              (dataView ! (pos + 2)) (dataView ! (pos + 3))))
      else Inl RangeError)"

text \<open>The loop \<open>for (i = 0; i < degree; i++) indices.push(dataView.getUint32((i + 1) * 4, false))\<close>.\<close>

function binaryToBlock_indices :: "u8 list \<Rightarrow> int \<Rightarrow> nat \<Rightarrow> int list \<Rightarrow> error + int list" where
  "binaryToBlock_indices dataView degree i indices =
     (if int i < degree
      then (case getUint32 dataView ((i + 1) * 4) of
              Inl e \<Rightarrow> Inl e
            | Inr v \<Rightarrow> binaryToBlock_indices dataView degree (i + 1) (indices @ [v]))
      else Inr indices)"
  by pat_completeness auto
termination
  by (relation "measure (\<lambda>(dataView, degree, i, indices). nat (degree - int i))") auto

declare binaryToBlock_indices.simps [simp del]

text \<open>\<open>binary.slice(begin)\<close>: a copy of the array's own elements from \<open>begin\<close> on.\<close>

definition slice_from :: "Uint8Array \<Rightarrow> nat \<Rightarrow> u8 list" where
  "slice_from binary begin =
     drop begin (take (array_length binary) (drop (array_byteOffset binary) (array_buffer binary)))"

definition binaryToBlock :: "Uint8Array \<Rightarrow> error + EncodedBlock" where
  "binaryToBlock binary =
     (let dataView = DataView (array_buffer binary) (array_byteOffset binary)
      in case getUint32 dataView 0 of
           Inl e \<Rightarrow> Inl e
         | Inr degree \<Rightarrow>
        (case binaryToBlock_indices dataView degree 0 [] of
           Inl e \<Rightarrow> Inl e
         | Inr indices \<Rightarrow>
        (case getUint32 dataView ((nat degree + 1) * 4) of
           Inl e \<Rightarrow> Inl e
         | Inr k \<Rightarrow>
        (case getUint32 dataView ((nat degree + 2) * 4) of
           Inl e \<Rightarrow> Inl e
         | Inr bytes \<Rightarrow>
        (case getUint32 dataView ((nat degree + 3) * 4) of
           Inl e \<Rightarrow> Inl e
         | Inr checksum \<Rightarrow>
             Inr \<lparr>block_k = k, block_bytes = bytes, block_checksum = checksum,
                  block_indices = indices,
                  block_data = slice_from binary ((nat degree + 4) * 4)\<rparr>)))))"

section \<open>Slicing and the Soliton sampler (src/unnamed/part_001)\<close>

text \<open>\<open>data.slice(begin, end)\<close> on a typed array, for \<open>begin \<le> end\<close>.\<close>

definition slice :: "u8 list \<Rightarrow> nat \<Rightarrow> nat \<Rightarrow> u8 list" where
  "slice data begin end' = take (end' - begin) (drop begin data)"

text \<open>
  The loop \<open>for (i = 0; i < data.length; i += blockSize)\<close> of \<open>sliceData\<close>. With
  \<open>blockSize = 0\<close> and a non-empty input it never ends: not returning is \<open>None\<close>.
\<close>

partial_function (option) sliceData_loop ::
  "u8 list \<Rightarrow> nat \<Rightarrow> nat \<Rightarrow> u8 list list \<Rightarrow> (error + u8 list list) option" where
  "sliceData_loop data blockSize i blocks =
     (if i < length data
      then (case typed_set (replicate blockSize 0) (slice data i (i + blockSize)) 0 of
              Inl e \<Rightarrow> Some (Inl e)
            | Inr block \<Rightarrow> sliceData_loop data blockSize (i + blockSize) (blocks @ [block]))
      else Some (Inr blocks))"

declare sliceData_loop.simps [code]

definition sliceData :: "u8 list \<Rightarrow> nat \<Rightarrow> (error + u8 list list) option" where
  "sliceData data blockSize = sliceData_loop data blockSize 0 []"

text \<open>
  JavaScript numbers that are not integers are reals here, and every arithmetic operation
  on them rounds its exact result to a double: \<open>fl\<close> is that rounding, a parameter of the
  sampler. A call of \<open>Math.random()\<close> takes the next element of the list of draws.

  The loop \<open>for (d = 2; d <= k; d++) probabilities[d - 1] = 1 / (d * (d - 1))\<close>:
\<close>

function probabilities_loop :: "(real \<Rightarrow> real) \<Rightarrow> nat \<Rightarrow> nat \<Rightarrow> real list \<Rightarrow> real list" where
  "probabilities_loop fl k d probabilities =
     (if d \<le> k
      then probabilities_loop fl k (d + 1)
             (probabilities[d - 1 := fl (1 / fl (real d * real (d - 1)))])
      else probabilities)"
  by pat_completeness auto
termination
  by (relation "measure (\<lambda>(fl, k, d, probabilities). k + 1 - d)") auto

declare probabilities_loop.simps [simp del]

text \<open>
  The loop \<open>for (const p of probabilities) { sum += p; cumulativeProbabilities.push(sum) }\<close>,
  with \<open>acc\<close> for \<open>sum\<close>.
\<close>

fun cumulativeProbabilities :: "(real \<Rightarrow> real) \<Rightarrow> real \<Rightarrow> real list \<Rightarrow> real list" where
  "cumulativeProbabilities fl acc [] = []"
| "cumulativeProbabilities fl acc (p # ps) =
     fl (acc + p) # cumulativeProbabilities fl (fl (acc + p)) ps"

text \<open>
  The scan \<open>for (i = 0; i < cumulativeProbabilities.length; i++)\<close> with its
  \<open>if (randomValue < cumulativeProbabilities[i]) return i + 1\<close>.
\<close>

fun degree_scan :: "real \<Rightarrow> real list \<Rightarrow> nat \<Rightarrow> nat option" where
  "degree_scan randomValue [] i = None"
| "degree_scan randomValue (c # cs) i =
     (if randomValue < c then Some (i + 1) else degree_scan randomValue cs (i + 1))"

definition soliton_table :: "(real \<Rightarrow> real) \<Rightarrow> nat \<Rightarrow> real list" where
  "soliton_table fl k =
     cumulativeProbabilities fl 0
       (probabilities_loop fl k 2 ((replicate k 0)[0 := fl (1 / real k)]))"

text \<open>
  For \<open>k = 0\<close> the source computes \<open>probabilities[0] = 1 / 0\<close>, which is \<open>Infinity\<close> and
  extends the empty array: the only cumulative value is \<open>Infinity\<close>, every draw is below
  it and the scan returns 1. HOL's \<open>1 / 0\<close> is 0, so this case is written out.
\<close>

definition getRandomDegree :: "(real \<Rightarrow> real) \<Rightarrow> nat \<Rightarrow> real \<Rightarrow> nat" where
  "getRandomDegree fl k randomValue =
     (if k = 0 then 1
      else (case degree_scan randomValue (soliton_table fl k) 0 of
              Some d \<Rightarrow> d
            | None \<Rightarrow> k))"

text \<open>\<open>Math.floor(Math.random() * k)\<close> for the draw \<open>r\<close>.\<close>

definition randomIndex :: "(real \<Rightarrow> real) \<Rightarrow> nat \<Rightarrow> real \<Rightarrow> int" where
  "randomIndex fl k r = \<lfloor>fl (r * real k)\<rfloor>"

text \<open>\<open>Set.prototype.add\<close>: a \<open>Set\<close> keeps its elements in the order of insertion.\<close>

definition Set_add :: "int list \<Rightarrow> int \<Rightarrow> int list" where
  "Set_add s x = (if x \<in> set s then s else s @ [x])"

text \<open>
  The loop \<open>while (indices.size < degree) indices.add(Math.floor(Math.random() * k))\<close>. It
  stops only when the set is full; \<open>None\<close>: still running when the draws are used up.
  The result carries the draws that are left.
\<close>

fun getRandomIndices_loop ::
  "(real \<Rightarrow> real) \<Rightarrow> nat \<Rightarrow> nat \<Rightarrow> int list \<Rightarrow> real list \<Rightarrow> (int list \<times> real list) option" where
  "getRandomIndices_loop fl k degree indices rnd =
     (if length indices < degree
      then (case rnd of
              [] \<Rightarrow> None
            | r # rnd' \<Rightarrow>
                getRandomIndices_loop fl k degree (Set_add indices (randomIndex fl k r)) rnd')
      else Some (indices, rnd))"

declare getRandomIndices_loop.simps [simp del]

definition getRandomIndices ::
  "(real \<Rightarrow> real) \<Rightarrow> nat \<Rightarrow> nat \<Rightarrow> real list \<Rightarrow> (int list \<times> real list) option" where
  "getRandomIndices fl k degree rnd = getRandomIndices_loop fl k degree [] rnd"

section \<open>Fountain encoder (src/unnamed/part_001)\<close>

text \<open>
  The fields of an \<open>LtEncoder\<close>, each with the prefix \<open>this_\<close>; \<open>this.indices\<close> is the
  table of slices. The external
  \<open>pako.deflate\<close> is the parameter \<open>deflate\<close> of the constructor.
\<close>

record LtEncoder =
  this_data :: "u8 list"
  this_sliceSize :: nat
  this_compress :: bool
  this_compressed :: "u8 list"
  this_indices :: "u8 list list"
  this_k :: int
  this_checksum :: int
  this_bytes :: int

definition LtEncoder_constructor ::
  "(u8 list \<Rightarrow> u8 list) \<Rightarrow> u8 list \<Rightarrow> nat \<Rightarrow> bool \<Rightarrow> (error + LtEncoder) option" where
  "LtEncoder_constructor deflate payload sliceSize compress =
     (let compressed = (if compress then deflate payload else payload)
      in case sliceData compressed sliceSize of
           None \<Rightarrow> None
         | Some (Inl e) \<Rightarrow> Some (Inl e)
         | Some (Inr slices) \<Rightarrow>
             Some (Inr \<lparr>this_data = payload, this_sliceSize = sliceSize, this_compress = compress,
                        this_compressed = compressed, this_indices = slices,
                        this_k = int (length slices),
                        this_checksum = getChecksum payload (int (length slices)),
                        this_bytes = int (length compressed)\<rparr>))"

definition createEncoder ::
  "(u8 list \<Rightarrow> u8 list) \<Rightarrow> u8 list \<Rightarrow> nat \<Rightarrow> bool \<Rightarrow> (error + LtEncoder) option" where
  "createEncoder deflate payload sliceSize compress =
     LtEncoder_constructor deflate payload sliceSize compress"

text \<open>
  \<open>this.indices[index]\<close> is \<open>undefined\<close> outside the table, and \<open>indicesIndex[i]\<close> is
  \<open>undefined\<close> beyond the end of a slice, where \<open>data[i] ^ undefined\<close> is \<open>data[i]\<close>.
\<close>

definition slice_at :: "u8 list list \<Rightarrow> int \<Rightarrow> u8 list option" where
  "slice_at slices index =
     (if 0 \<le> index \<and> index < int (length slices) then Some (slices ! nat index) else None)"

definition byte_at :: "u8 list \<Rightarrow> nat \<Rightarrow> u8" where
  "byte_at xs i = (if i < length xs then xs ! i else 0)"

text \<open>The inner loop \<open>for (i = 0; i < this.sliceSize; i++) data[i] = data[i] ^ indicesIndex[i]\<close>.\<close>

function createBlock_xor :: "nat \<Rightarrow> u8 list \<Rightarrow> nat \<Rightarrow> u8 list \<Rightarrow> u8 list" where
  "createBlock_xor sliceSize indicesIndex i data =
     (if i < sliceSize
      then createBlock_xor sliceSize indicesIndex (i + 1)
             (data[i := (data ! i) XOR byte_at indicesIndex i])
      else data)"
  by pat_completeness auto
termination
  by (relation "measure (\<lambda>(sliceSize, indicesIndex, i, data). sliceSize - i)") auto

declare createBlock_xor.simps [simp del]

text \<open>
  The outer loop \<open>for (const index of indices)\<close>. Reading \<open>indicesIndex[0]\<close> of an
  \<open>undefined\<close> slice raises a TypeError; with \<open>sliceSize = 0\<close> nothing is read.
\<close>

fun createBlock_loop :: "LtEncoder \<Rightarrow> int list \<Rightarrow> u8 list \<Rightarrow> error + u8 list" where
  "createBlock_loop this [] data = Inr data"
| "createBlock_loop this (index # indices) data =
     (case slice_at (this_indices this) index of
        None \<Rightarrow> (if 0 < this_sliceSize this then Inl TypeError
                  else createBlock_loop this indices data)
      | Some indicesIndex \<Rightarrow>
          createBlock_loop this indices
            (createBlock_xor (this_sliceSize this) indicesIndex 0 data))"

text \<open>
  \<open>createBlock\<close> is a method: it returns its block together with the encoder as the call
  leaves it.
\<close>

definition createBlock :: "LtEncoder \<Rightarrow> int list \<Rightarrow> error + (EncodedBlock \<times> LtEncoder)" where
  "createBlock this indices =
     (case createBlock_loop this indices (replicate (this_sliceSize this) 0) of
        Inl e \<Rightarrow> Inl e
      | Inr data \<Rightarrow>
          Inr (\<lparr>block_k = this_k this, block_bytes = this_bytes this,
                block_checksum = this_checksum this, block_indices = indices,
                block_data = data\<rparr>, this))"

text \<open>
  One turn of the generator's \<open>while (true)\<close> loop, up to its \<open>yield\<close>: the block, the
  encoder and the draws that are left. \<open>None\<close>: the draws ran out inside the turn.
\<close>

definition fountain_next ::
  "(real \<Rightarrow> real) \<Rightarrow> LtEncoder \<Rightarrow> real list
     \<Rightarrow> (error + (EncodedBlock \<times> LtEncoder \<times> real list)) option" where
  "fountain_next fl this rnd =
     (case rnd of
        [] \<Rightarrow> None
      | randomValue # rnd1 \<Rightarrow>
          (let degree = getRandomDegree fl (nat (this_k this)) randomValue
           in case getRandomIndices fl (nat (this_k this)) degree rnd1 of
                None \<Rightarrow> None
              | Some (selectedIndices, rnd2) \<Rightarrow>
                  (case createBlock this selectedIndices of
                     Inl e \<Rightarrow> Some (Inl e)
                   | Inr (block, this') \<Rightarrow> Some (Inr (block, this', rnd2)))))"

text \<open>The first \<open>n\<close> blocks that the generator yields.\<close>

fun fountain ::
  "(real \<Rightarrow> real) \<Rightarrow> LtEncoder \<Rightarrow> nat \<Rightarrow> real list \<Rightarrow> (error + EncodedBlock list) option" where
  "fountain fl this 0 rnd = Some (Inr [])"
| "fountain fl this (Suc n) rnd =
     (case fountain_next fl this rnd of
        None \<Rightarrow> None
      | Some (Inl e) \<Rightarrow> Some (Inl e)
      | Some (Inr (block, this', rnd')) \<Rightarrow>
          (case fountain fl this' n rnd' of
             None \<Rightarrow> None
           | Some (Inl e) \<Rightarrow> Some (Inl e)
           | Some (Inr blocks) \<Rightarrow> Some (Inr (block # blocks))))"

text \<open>\<open>binaryToBlock(blockToBinary(block))\<close> on a host of the given byte order.\<close>

definition roundtrip :: "endianness \<Rightarrow> EncodedBlock \<Rightarrow> error + EncodedBlock" where
  "roundtrip host block =
     (case blockToBinary host block of
        Inl e \<Rightarrow> Inl e
      | Inr binary \<Rightarrow> binaryToBlock (Uint8Array_of binary))"

text \<open>
  The chunk of \<open>blockSize\<close> bytes that starts at position \<open>i\<close> of \<open>xs\<close>, padded with
  zeros where the input ends.
\<close>

definition padded_chunk :: "u8 list \<Rightarrow> nat \<Rightarrow> nat \<Rightarrow> u8 list" where
  "padded_chunk xs blockSize i =
     take blockSize (drop i xs) @ replicate (blockSize - length (take blockSize (drop i xs))) 0"

text \<open>
  What the sampler takes from a draw \<open>r\<close> of \<open>Math.random()\<close>: it lies in \<open>[0, 1)\<close>, and
  its product with \<open>k\<close>, rounded to a double, stays in \<open>[0, k)\<close>. Both hold for IEEE-754
  doubles (\<open>r \<le> 1 - 2^-53\<close>, so the product does not round up to \<open>k\<close>), and for exact
  arithmetic.
\<close>

definition draw_ok :: "(real \<Rightarrow> real) \<Rightarrow> nat \<Rightarrow> real \<Rightarrow> bool" where
  "draw_ok fl k r \<longleftrightarrow> 0 \<le> r \<and> r < 1 \<and> 0 \<le> fl (r * real k) \<and> fl (r * real k) < real k"

text \<open>
  The Ideal Soliton Distribution in the spec's words: \<open>P(1) = 1/k\<close>,
  \<open>P(d) = 1 / (d (d - 1))\<close> for \<open>d\<close> in \<open>[2, k]\<close>, and its cumulative sum.
\<close>

definition soliton_P :: "nat \<Rightarrow> nat \<Rightarrow> real" where
  "soliton_P k d = (if d = 1 then 1 / real k else 1 / (real d * (real d - 1)))"

definition soliton_cumulative :: "nat \<Rightarrow> nat \<Rightarrow> real" where
  "soliton_cumulative k d = (\<Sum>j = 1..d. soliton_P k j)"

text \<open>
  The encoder that \<open>new LtEncoder(Uint8Array [1, 2, 3, 4, 5], 2, false)\<close> builds, and the
  one for an empty payload.
\<close>

definition example_encoder :: LtEncoder where
  "example_encoder =
     \<lparr>this_data = [1, 2, 3, 4, 5], this_sliceSize = 2, this_compress = False,
      this_compressed = [1, 2, 3, 4, 5], this_indices = [[1, 2], [3, 4], [5, 0]], this_k = 3,
      this_checksum = getChecksum [1, 2, 3, 4, 5] 3, this_bytes = 5\<rparr>"

definition empty_encoder :: LtEncoder where
  "empty_encoder =
     \<lparr>this_data = [], this_sliceSize = 2, this_compress = False,
      this_compressed = [], this_indices = [], this_k = 0,
      this_checksum = getChecksum [] 0, this_bytes = 0\<rparr>"

text \<open>The unsigned big-endian word that starts at byte \<open>pos\<close> of a view.\<close>

definition be_read :: "u8 list \<Rightarrow> nat \<Rightarrow> int" where
  "be_read dataView pos =
     uint (be_word (dataView ! pos) (dataView ! (pos + 1)) (dataView ! (pos + 2))
                   (dataView ! (pos + 3)))"

text \<open>The elements of a \<open>Uint8Array\<close>: the bytes of its window.\<close>

definition Uint8Array_elements :: "Uint8Array \<Rightarrow> u8 list" where
  "Uint8Array_elements binary =
     take (array_length binary) (drop (array_byteOffset binary) (array_buffer binary))"

text \<open>
  The Ideal Soliton probabilities and their cumulative sum as floating-point arithmetic
  gives them: the spec's formulas with the result of every operation rounded by \<open>fl\<close>,
  the sum taken from \<open>P(1)\<close> upwards.
\<close>

definition soliton_P_rounded :: "(real \<Rightarrow> real) \<Rightarrow> nat \<Rightarrow> nat \<Rightarrow> real" where
  "soliton_P_rounded fl k d =
     (if d = 1 then fl (1 / real k) else fl (1 / fl (real d * real (d - 1))))"

fun soliton_cumulative_rounded :: "(real \<Rightarrow> real) \<Rightarrow> nat \<Rightarrow> nat \<Rightarrow> real" where
  "soliton_cumulative_rounded fl k 0 = 0"
| "soliton_cumulative_rounded fl k (Suc d) =
     fl (soliton_cumulative_rounded fl k d + soliton_P_rounded fl k (Suc d))"

text \<open>
  The rounding of IEEE-754 binary64 (to nearest, ties to even) on the results that
  \<open>getRandomDegree(3)\<close> computes: \<open>1/3\<close>, \<open>1/6\<close> and the second and third partial sum
  are not doubles, every other result there is one.
\<close>

definition binary64_k3 :: "real \<Rightarrow> real" where
  "binary64_k3 x =
     (if x = 1 / 3 then 6004799503160661 / 2 ^ 54
      else if x = 1 / 6 then 6004799503160661 / 2 ^ 55
      else if x = 6004799503160661 / 2 ^ 54 + 1 / 2 then 3752999689475413 / 2 ^ 52
      else if x = 3752999689475413 / 2 ^ 52 + 6004799503160661 / 2 ^ 55
        then 9007199254740991 / 2 ^ 53
      else x)"

section \<open>Checksum: properties\<close>

lemma CRC_TABLE_nth: "i < 256 \<Longrightarrow> CRC_TABLE ! i = CRC_TABLE_entry i"
  by (simp add: CRC_TABLE_def)

lemma and_255_bound: "sint ((w :: u32) AND 255) = uint (w AND 255)" "uint (w AND 255) < 256"
proof -
  have le: "w AND 255 \<le> 255"
    by (rule word_and_le1)
  then show u: "uint (w AND 255) < 256"
    by (simp add: word_le_def)
  have "signed_take_bit 31 (uint (w AND 255)) = uint (w AND 255)"
  proof (rule signed_take_bit_int_eq_self)
    have "- (2 ^ 31) \<le> (0::int)" by simp
    also have "0 \<le> uint (w AND 255)" by simp
    finally show "- (2 ^ 31) \<le> uint (w AND 255)" .
    have "(256::int) \<le> 2 ^ 31" by simp
    with u show "uint (w AND 255) < 2 ^ 31" by (rule less_le_trans)
  qed
  then show "sint (w AND 255) = uint (w AND 255)"
    by (simp add: sint_uint)
qed

lemma js_and_255_range: "0 \<le> js_and x 0xFF" "js_and x 0xFF < 256"
  using and_255_bound [of "ToUint32 x"] by (simp_all add: js_and_def ToUint32_def)

lemma crc32_loop_entry [code]:
  "crc32_loop crc [] = crc"
  "crc32_loop crc (b # buf) =
     crc32_loop (js_xor (js_ushr crc 8) (CRC_TABLE_entry (nat (js_and (js_xor crc (uint b)) 0xFF)))) buf"
proof -
  show "crc32_loop crc [] = crc" by simp
  have "nat (js_and (js_xor crc (uint b)) 0xFF) < 256"
    using js_and_255_range [of "js_xor crc (uint b)"] by simp
  then show "crc32_loop crc (b # buf) =
     crc32_loop (js_xor (js_ushr crc 8) (CRC_TABLE_entry (nat (js_and (js_xor crc (uint b)) 0xFF)))) buf"
    by (simp add: CRC_TABLE_nth)
qed

text \<open>
  \<open>crc32\<close> is the standard CRC-32: the published test vector and the empty input. Its
  result is unsigned, and \<open>getChecksum\<close> has the 32 bits of \<open>crc32(payload) XOR k\<close>.
\<close>

lemma crc32_test_vector:
  "crc32 (map of_char ''The quick brown fox jumps over the lazy dog'') = 0x414FA339"
  by code_simp

lemma crc32_empty: "crc32 [] = 0"
  by code_simp

lemma getChecksum_bits:
  "ToUint32 (getChecksum payload n) = ToUint32 (crc32 payload) XOR ToUint32 n"
  by (simp add: getChecksum_def js_xor_def ToUint32_def)

lemma crc32_unsigned: "0 \<le> crc32 buf" "crc32 buf < 2 ^ 32"
  using uint_lt2p [of "drop_bit 0 (ToUint32 (js_xor (crc32_loop 0xFFFFFFFF buf) 0xFFFFFFFF))"]
  by (simp_all add: crc32_def js_ushr_def)

text \<open>
  C5. The claim: \<open>getChecksum(payload, k)\<close> returns the uint32 value \<open>crc32(payload) XOR k\<close>.
  \<open>crc32\<close> ends with \<open>>>> 0\<close> and is unsigned, but \<open>getChecksum\<close> returns the result of
  \<open>^\<close> as it is, a signed 32-bit number: for the one-byte payload \<open>"a"\<close> (CRC-32
  \<open>0xE8B7BE43\<close>) and \<open>k = 1\<close> the code returns \<open>-390611390\<close>, not the uint32
  \<open>3904355906\<close>.
\<close>

theorem getChecksum_negative: "getChecksum [0x61] 1 = - 390611390"
  by code_simp

section \<open>Block codec: properties\<close>

text \<open>
  C3. The claim: the encoder lays the header out as big-endian words. \<open>blockToBinary\<close>
  copies the bytes of a \<open>Uint32Array\<close>, which are in host order: on a little-endian host
  the block with \<open>indices = [0]\<close>, \<open>k = 1\<close>, \<open>bytes = 1\<close>, \<open>checksum = 0\<close> and
  \<open>data = [7]\<close> is encoded with the degree word \<open>01 00 00 00\<close>, where the claim (and
  \<open>binaryToBlock\<close>, which reads big-endian) has \<open>00 00 00 01\<close>.
\<close>

theorem blockToBinary_little_endian_host:
  "blockToBinary LittleEndian
     \<lparr>block_k = 1, block_bytes = 1, block_checksum = 0, block_indices = [0], block_data = [7]\<rparr>
   = Inr [1, 0, 0, 0,  0, 0, 0, 0,  1, 0, 0, 0,  1, 0, 0, 0,  0, 0, 0, 0,  7]"
  by code_simp

text \<open>
  C1. The claim: decoding an encoded well-formed block gives the block back. On a
  little-endian host the degree word \<open>01 00 00 00\<close> of the same block is read back
  big-endian as 16777216, the loop over the indices leaves the buffer, and
  \<open>binaryToBlock\<close> raises a RangeError instead of returning the block.
\<close>

theorem roundtrip_little_endian_host:
  "roundtrip LittleEndian
     \<lparr>block_k = 1, block_bytes = 1, block_checksum = 0, block_indices = [0], block_data = [7]\<rparr>
   = Inl RangeError"
  by code_simp

lemma be_word_bytes:
  "be_word (ucast (drop_bit 24 w)) (ucast (drop_bit 16 w)) (ucast (drop_bit 8 w)) (ucast w) = w"
  unfolding be_word_def
proof (rule bit_word_eqI)
  fix n assume "n < LENGTH(32)"
  then consider "n < 8" | "8 \<le> n" "n < 16" | "16 \<le> n" "n < 24" | "24 \<le> n" "n < 32"
    by fastforce
  then show "bit (push_bit 24 (ucast (ucast (drop_bit 24 w) :: u8)) OR
                  push_bit 16 (ucast (ucast (drop_bit 16 w) :: u8)) OR
                  push_bit 8 (ucast (ucast (drop_bit 8 w) :: u8)) OR ucast (ucast w :: u8) :: u32) n
             = bit w n"
    by cases (auto simp: bit_simps)
qed


lemma getUint32_be_read:
  "getUint32 dataView pos =
     (if pos + 4 \<le> length dataView then Inr (be_read dataView pos) else Inl RangeError)"
  by (simp add: getUint32_def be_read_def)

lemma be_read_nonneg: "0 \<le> be_read dataView pos"
  by (simp add: be_read_def)

lemma binaryToBlock_indices_ok:
  assumes "(nat degree + 1) * 4 \<le> length dataView"
  shows "binaryToBlock_indices dataView degree i acc =
         Inr (acc @ map (\<lambda>j. be_read dataView ((j + 1) * 4)) [i..<nat degree])"
  using assms
proof (induction dataView degree i acc rule: binaryToBlock_indices.induct)
  case (1 dataView degree i acc)
  show ?case
  proof (cases "int i < degree")
    case False
    then show ?thesis
      by (subst binaryToBlock_indices.simps) simp
  next
    case True
    then have i: "i < nat degree"
      by simp
    then have rd: "getUint32 dataView ((i + 1) * 4) = Inr (be_read dataView ((i + 1) * 4))"
      using "1.prems" by (simp add: getUint32_be_read)
    have "binaryToBlock_indices dataView degree i acc =
          binaryToBlock_indices dataView degree (i + 1) (acc @ [be_read dataView ((i + 1) * 4)])"
      using True rd by (subst binaryToBlock_indices.simps) simp
    also have "\<dots> = Inr ((acc @ [be_read dataView ((i + 1) * 4)]) @
                       map (\<lambda>j. be_read dataView ((j + 1) * 4)) [i + 1..<nat degree])"
      using "1.IH" [OF True rd "1.prems"] .
    finally show ?thesis
      using i by (simp add: upt_conv_Cons)
  qed
qed

lemma binaryToBlock_indices_short:
  assumes "length dataView < (nat degree + 1) * 4" and "int i < degree"
  shows "binaryToBlock_indices dataView degree i acc = Inl RangeError"
  using assms
proof (induction dataView degree i acc rule: binaryToBlock_indices.induct)
  case (1 dataView degree i acc)
  show ?case
  proof (cases "(i + 1) * 4 + 4 \<le> length dataView")
    case False
    then have "getUint32 dataView ((i + 1) * 4) = Inl RangeError"
      by (simp add: getUint32_be_read)
    with "1.prems"(2) show ?thesis
      by (subst binaryToBlock_indices.simps) simp
  next
    case True
    then have rd: "getUint32 dataView ((i + 1) * 4) = Inr (be_read dataView ((i + 1) * 4))"
      by (simp add: getUint32_be_read)
    have "(i + 1) * 4 + 4 < (nat degree + 1) * 4"
      using True "1.prems"(1) by (rule le_less_trans)
    then have "i + 1 < nat degree"
      by simp
    then have next': "int (i + 1) < degree"
      by simp
    have "binaryToBlock_indices dataView degree i acc =
          binaryToBlock_indices dataView degree (i + 1) (acc @ [be_read dataView ((i + 1) * 4)])"
      using "1.prems"(2) rd by (subst binaryToBlock_indices.simps) simp
    also have "\<dots> = Inl RangeError"
      using "1.IH" [OF "1.prems"(2) rd "1.prems"(1) next'] .
    finally show ?thesis .
  qed
qed

lemma binaryToBlock_closed_form:
  "binaryToBlock binary =
     (let dataView = DataView (array_buffer binary) (array_byteOffset binary);
          degree = nat (be_read dataView 0)
      in if length dataView < 4 \<or> length dataView < (degree + 4) * 4 then Inl RangeError
         else Inr \<lparr>block_k = be_read dataView ((degree + 1) * 4),
                   block_bytes = be_read dataView ((degree + 2) * 4),
                   block_checksum = be_read dataView ((degree + 3) * 4),
                   block_indices = map (\<lambda>j. be_read dataView ((j + 1) * 4)) [0..<degree],
                   block_data = slice_from binary ((degree + 4) * 4)\<rparr>)"
proof -
  define dataView where "dataView = DataView (array_buffer binary) (array_byteOffset binary)"
  define degree where "degree = be_read dataView 0"
  have d0: "0 \<le> degree"
    by (simp add: degree_def be_read_nonneg)
  consider (tiny) "length dataView < 4"
    | (loop) "4 \<le> length dataView" "length dataView < (nat degree + 1) * 4"
    | (tail) "(nat degree + 1) * 4 \<le> length dataView" "length dataView < (nat degree + 4) * 4"
    | (ok) "(nat degree + 4) * 4 \<le> length dataView"
    by linarith
  then have "binaryToBlock binary =
     (if length dataView < 4 \<or> length dataView < (nat degree + 4) * 4 then Inl RangeError
      else Inr \<lparr>block_k = be_read dataView ((nat degree + 1) * 4),
                block_bytes = be_read dataView ((nat degree + 2) * 4),
                block_checksum = be_read dataView ((nat degree + 3) * 4),
                block_indices = map (\<lambda>j. be_read dataView ((j + 1) * 4)) [0..<nat degree],
                block_data = slice_from binary ((nat degree + 4) * 4)\<rparr>)"
  proof cases
    case tiny
    then show ?thesis
      by (simp add: binaryToBlock_def dataView_def [symmetric] getUint32_be_read)
  next
    case loop
    then have "0 < degree"
      by (cases "degree = 0") simp_all
    then have "binaryToBlock_indices dataView degree 0 [] = Inl RangeError"
      using loop(2) by (intro binaryToBlock_indices_short) simp_all
    then show ?thesis
      using loop
      by (simp add: binaryToBlock_def dataView_def [symmetric] getUint32_be_read
            degree_def [symmetric])
  next
    case tail
    have "binaryToBlock_indices dataView degree 0 [] =
          Inr ([] @ map (\<lambda>j. be_read dataView ((j + 1) * 4)) [0..<nat degree])"
      using tail(1) by (rule binaryToBlock_indices_ok)
    then show ?thesis
      using tail
      by (simp add: binaryToBlock_def dataView_def [symmetric] getUint32_be_read
            degree_def [symmetric])
  next
    case ok
    have "binaryToBlock_indices dataView degree 0 [] =
          Inr ([] @ map (\<lambda>j. be_read dataView ((j + 1) * 4)) [0..<nat degree])"
      using ok by (intro binaryToBlock_indices_ok) simp
    then show ?thesis
      using ok
      by (simp add: binaryToBlock_def dataView_def [symmetric] getUint32_be_read
            degree_def [symmetric])
  qed
  then show ?thesis
    by (simp add: Let_def dataView_def degree_def)
qed

text \<open>
  C2. The claim: \<open>binaryToBlock\<close> fails with MalformedBlock when the degree is 0, or an
  index is repeated or is not below \<open>k\<close>. The source checks none of these: sixteen zero
  bytes decode to a block with no indices, and a header with the indices \<open>5, 5\<close> and
  \<open>k = 3\<close> decodes to just that.
\<close>

theorem binaryToBlock_accepts_invalid_header:
  "binaryToBlock (Uint8Array_of (replicate 16 0)) =
     Inr \<lparr>block_k = 0, block_bytes = 0, block_checksum = 0, block_indices = [], block_data = []\<rparr>
   \<and> binaryToBlock (Uint8Array_of
        [0, 0, 0, 2,  0, 0, 0, 5,  0, 0, 0, 5,  0, 0, 0, 3,  0, 0, 0, 0,  0, 0, 0, 0]) =
     Inr \<lparr>block_k = 3, block_bytes = 0, block_checksum = 0, block_indices = [5, 5],
          block_data = []\<rparr>"
  by code_simp


text \<open>
  C2, amended. For a \<open>Uint8Array\<close> that reaches to the end of its buffer (as every
  array allocated on its own, such as the result of \<open>blockToBinary\<close>), \<open>binaryToBlock\<close>
  fails exactly when the array is shorter than 4 bytes, or shorter than
  \<open>(degree + 4) * 4\<close> bytes for the embedded degree; the failure is the RangeError of the
  bounds-checked read, so nothing outside the array is read and no block is returned. On
  every other such array it returns the decoded fields, whatever the degree and the
  indices are.
\<close>

theorem binaryToBlock_fails_iff:
  assumes "array_byteOffset binary + array_length binary = length (array_buffer binary)"
  shows "binaryToBlock binary =
     (let elements = Uint8Array_elements binary;
          degree = nat (be_read elements 0)
      in if array_length binary < 4 \<or> array_length binary < (degree + 4) * 4
         then Inl RangeError
         else Inr \<lparr>block_k = be_read elements ((degree + 1) * 4),
                   block_bytes = be_read elements ((degree + 2) * 4),
                   block_checksum = be_read elements ((degree + 3) * 4),
                   block_indices = map (\<lambda>j. be_read elements ((j + 1) * 4)) [0..<degree],
                   block_data = drop ((degree + 4) * 4) elements\<rparr>)"
proof -
  have el: "Uint8Array_elements binary = DataView (array_buffer binary) (array_byteOffset binary)"
    using assms by (simp add: Uint8Array_elements_def DataView_def)
  have len: "length (DataView (array_buffer binary) (array_byteOffset binary)) = array_length binary"
    using assms by (simp add: DataView_def)
  have sl: "slice_from binary pos =
            drop pos (DataView (array_buffer binary) (array_byteOffset binary))" for pos
    using el by (simp add: slice_from_def Uint8Array_elements_def)
  show ?thesis
    unfolding binaryToBlock_closed_form el
    by (simp add: Let_def len sl)
qed

theorem binaryToBlock_fails_iff_witness:
  "binaryToBlock (Uint8Array_of [0, 0, 0, 1,  0, 0, 0, 7]) = Inl RangeError
   \<and> binaryToBlock (Uint8Array_of
        [0, 0, 0, 1,  0, 0, 0, 7,  0, 0, 0, 3,  0, 0, 0, 5,  0, 0, 0, 6,  9]) =
     Inr \<lparr>block_k = 3, block_bytes = 5, block_checksum = 6, block_indices = [7],
          block_data = [9]\<rparr>"
proof -
  have w: "array_byteOffset (Uint8Array_of bs) + array_length (Uint8Array_of bs) =
        length (array_buffer (Uint8Array_of bs))" for bs
    by (simp add: Uint8Array_of_def)
  have e: "Uint8Array_elements (Uint8Array_of bs) = bs" for bs
    by (simp add: Uint8Array_elements_def Uint8Array_of_def)
  have al: "array_length (Uint8Array_of bs) = length bs" for bs
    by (simp add: Uint8Array_of_def)
  have d: "nat (be_read [0, 0, 0, 1,  0, 0, 0, 7] 0) = 1"
    by code_simp
  have 1: "binaryToBlock (Uint8Array_of [0, 0, 0, 1,  0, 0, 0, 7]) = Inl RangeError"
    using binaryToBlock_fails_iff [OF w [of "[0, 0, 0, 1,  0, 0, 0, 7]"]]
    by (simp add: e al d Let_def)
  have d2: "nat (be_read [0, 0, 0, 1,  0, 0, 0, 7,  0, 0, 0, 3,  0, 0, 0, 5,  0, 0, 0, 6,  9] 0) = 1"
    by code_simp
  have r: "be_read [0, 0, 0, 1,  0, 0, 0, 7,  0, 0, 0, 3,  0, 0, 0, 5,  0, 0, 0, 6,  9] 4 = 7"
      "be_read [0, 0, 0, 1,  0, 0, 0, 7,  0, 0, 0, 3,  0, 0, 0, 5,  0, 0, 0, 6,  9] 8 = 3"
      "be_read [0, 0, 0, 1,  0, 0, 0, 7,  0, 0, 0, 3,  0, 0, 0, 5,  0, 0, 0, 6,  9] 12 = 5"
      "be_read [0, 0, 0, 1,  0, 0, 0, 7,  0, 0, 0, 3,  0, 0, 0, 5,  0, 0, 0, 6,  9] 16 = 6"
    by code_simp+
  have 2: "binaryToBlock (Uint8Array_of
        [0, 0, 0, 1,  0, 0, 0, 7,  0, 0, 0, 3,  0, 0, 0, 5,  0, 0, 0, 6,  9]) =
     Inr \<lparr>block_k = 3, block_bytes = 5, block_checksum = 6, block_indices = [7],
          block_data = [9]\<rparr>"
    using binaryToBlock_fails_iff
      [OF w [of "[0, 0, 0, 1,  0, 0, 0, 7,  0, 0, 0, 3,  0, 0, 0, 5,  0, 0, 0, 6,  9]"]]
    by (simp add: e al d2 r Let_def)
  from 1 2 show ?thesis
    by simp
qed

text \<open>
  \<open>binaryToBlock\<close> builds its \<open>DataView\<close> without the array's length, while
  \<open>binary.slice\<close> takes the array itself: a window that ends before its buffer does is
  decoded with header words from beyond its end.
\<close>

lemma binaryToBlock_window_inside_buffer:
  "binaryToBlock
     \<lparr>array_buffer = [1, 1, 1, 1,  0, 0, 0, 1,  0, 0, 0, 7,  0, 0, 0, 3,  0, 0, 0, 5,
                      0, 0, 0, 6,  9, 9],
      array_byteOffset = 4, array_length = 8\<rparr>
   = Inr \<lparr>block_k = 3, block_bytes = 5, block_checksum = 6, block_indices = [7],
          block_data = []\<rparr>"
  by code_simp

text \<open>
  What holds of the encoder on every host: the header words in the claimed order,
  followed by the data, \<open>(degree + 4) * 4 + len(data)\<close> bytes in all. On a big-endian host
  the decoder reads back what the encoder wrote.
\<close>

lemma length_word_bytes: "length (word_bytes host w) = 4"
  by (cases host) (simp_all add: word_bytes_def)

lemma length_Uint32Array_bytes: "length (Uint32Array_bytes host xs) = length xs * 4"
  by (induction xs) (simp_all add: Uint32Array_bytes_def length_word_bytes)

lemma blockToBinary_layout:
  "blockToBinary host block =
     Inr (Uint32Array_bytes host
            ([int (length (block_indices block))] @ block_indices block
               @ [block_k block, block_bytes block, block_checksum block])
          @ block_data block)"
  by (simp add: blockToBinary_def Let_def typed_set_def length_Uint32Array_bytes)

lemma blockToBinary_length:
  "\<exists>binary. blockToBinary host block = Inr binary
     \<and> length binary = (length (block_indices block) + 4) * 4 + length (block_data block)"
  by (simp add: blockToBinary_layout length_Uint32Array_bytes)

lemma Uint32Array_bytes_nth:
  assumes "j < length xs" "t < 4"
  shows "(Uint32Array_bytes host xs @ rest) ! (j * 4 + t) = word_bytes host (ToUint32 (xs ! j)) ! t"
  using assms
proof (induction xs arbitrary: j)
  case Nil
  then show ?case by simp
next
  case (Cons x xs)
  show ?case
  proof (cases j)
    case 0
    then show ?thesis
      using Cons.prems(2)
      by (simp add: Uint32Array_bytes_def nth_append length_word_bytes)
  next
    case (Suc j')
    then have "((Uint32Array_bytes host (x # xs)) @ rest) ! (j * 4 + t) =
               (Uint32Array_bytes host xs @ rest) ! (j' * 4 + t)"
      by (simp add: Uint32Array_bytes_def nth_append length_word_bytes)
    then show ?thesis
      using Cons.IH [of j'] Cons.prems Suc by simp
  qed
qed

lemma be_read_Uint32Array_bytes:
  assumes "j < length xs"
  shows "be_read (Uint32Array_bytes BigEndian xs @ rest) (j * 4) = uint (ToUint32 (xs ! j))"
proof -
  have "(Uint32Array_bytes BigEndian xs @ rest) ! (j * 4 + t) =
        word_bytes BigEndian (ToUint32 (xs ! j)) ! t" if "t < 4" for t
    using assms that by (rule Uint32Array_bytes_nth)
  from this [of 0] this [of 1] this [of 2] this [of 3] show ?thesis
    by (simp add: be_read_def word_bytes_def be_word_bytes)
qed

lemma uint_ToUint32:
  assumes "0 \<le> x" "x < 2 ^ 32"
  shows "uint (ToUint32 x) = x"
  using assms by (simp add: ToUint32_def uint_word_of_int take_bit_int_eq_self)


lemma roundtrip_big_endian_host:
  assumes len: "length (block_indices block) < 2 ^ 32"
    and idx: "\<forall>i\<in>set (block_indices block). 0 \<le> i \<and> i < 2 ^ 32"
    and k: "0 \<le> block_k block" "block_k block < 2 ^ 32"
    and b: "0 \<le> block_bytes block" "block_bytes block < 2 ^ 32"
    and c: "0 \<le> block_checksum block" "block_checksum block < 2 ^ 32"
  shows "roundtrip BigEndian block = Inr block"
proof -
  define n where "n = length (block_indices block)"
  define header where "header = [int n] @ block_indices block
      @ [block_k block, block_bytes block, block_checksum block]"
  define binary where "binary = Uint32Array_bytes BigEndian header @ block_data block"
  have enc: "blockToBinary BigEndian block = Inr binary"
    by (simp add: blockToBinary_layout binary_def header_def n_def)
  have hl: "length header = n + 4"
    by (simp add: header_def n_def)
  have bl: "length binary = (n + 4) * 4 + length (block_data block)"
    by (simp add: binary_def length_Uint32Array_bytes hl)
  have rd: "be_read binary (j * 4) = uint (ToUint32 (header ! j))" if "j < n + 4" for j
    unfolding binary_def using that hl by (intro be_read_Uint32Array_bytes) simp
  have h0: "header ! 0 = int n"
    by (simp add: header_def)
  have hi: "header ! (j + 1) = block_indices block ! j" if "j < n" for j
    using that by (simp add: header_def nth_append n_def)
  have hk: "header ! (n + 1) = block_k block"
    and hb: "header ! (n + 2) = block_bytes block"
    and hc: "header ! (n + 3) = block_checksum block"
    by (simp_all add: header_def nth_append n_def)
  have "be_read binary 0 = uint (ToUint32 (int n))"
    using rd [of 0] h0 by simp
  also have "\<dots> = int n"
    using len by (intro uint_ToUint32) (simp_all add: n_def)
  finally have deg: "nat (be_read binary 0) = n"
    by simp
  have rk: "be_read binary ((n + 1) * 4) = block_k block"
    using rd [of "n + 1"] hk k by (simp add: uint_ToUint32)
  have rb: "be_read binary ((n + 2) * 4) = block_bytes block"
    using rd [of "n + 2"] hb b by (simp add: uint_ToUint32)
  have rc: "be_read binary ((n + 3) * 4) = block_checksum block"
    using rd [of "n + 3"] hc c by (simp add: uint_ToUint32)
  have ri: "map (\<lambda>j. be_read binary ((j + 1) * 4)) [0..<n] = block_indices block"
  proof (rule nth_equalityI)
    show "length (map (\<lambda>j. be_read binary ((j + 1) * 4)) [0..<n]) = length (block_indices block)"
      by (simp add: n_def)
  next
    fix j assume "j < length (map (\<lambda>j. be_read binary ((j + 1) * 4)) [0..<n])"
    then have j: "j < n" by simp
    then have "0 \<le> block_indices block ! j \<and> block_indices block ! j < 2 ^ 32"
      using idx by (simp add: n_def)
    then have "be_read binary ((j + 1) * 4) = block_indices block ! j"
      using rd [of "j + 1"] hi [OF j] j by (simp add: uint_ToUint32)
    then show "map (\<lambda>j. be_read binary ((j + 1) * 4)) [0..<n] ! j = block_indices block ! j"
      using j by simp
  qed
  have sl: "slice_from (Uint8Array_of binary) ((n + 4) * 4) = block_data block"
    by (simp add: slice_from_def Uint8Array_of_def binary_def length_Uint32Array_bytes hl)
  have ab: "array_buffer (Uint8Array_of binary) = binary"
      "array_byteOffset (Uint8Array_of binary) = 0"
    by (simp_all add: Uint8Array_of_def)
  have "binaryToBlock (Uint8Array_of binary) =
        Inr \<lparr>block_k = block_k block, block_bytes = block_bytes block,
             block_checksum = block_checksum block, block_indices = block_indices block,
             block_data = block_data block\<rparr>"
    unfolding binaryToBlock_closed_form
    using rk rb rc ri sl by (simp add: ab DataView_def Let_def deg bl)
  then show ?thesis
    by (simp add: roundtrip_def enc)
qed

text \<open>
  The encoder of the one-byte payload \<open>"a"\<close> stores the negative checksum of
  \<open>getChecksum\<close>; a block with it comes back from the codec, also on a big-endian
  host, with the unsigned value of the same 32 bits.
\<close>

lemma roundtrip_negative_checksum:
  "roundtrip BigEndian
     \<lparr>block_k = 1, block_bytes = 1, block_checksum = - 390611390, block_indices = [0],
      block_data = [0x61]\<rparr>
   = Inr \<lparr>block_k = 1, block_bytes = 1, block_checksum = 3904355906, block_indices = [0],
          block_data = [0x61]\<rparr>"
  by code_simp

lemma encoder_negative_checksum:
  "\<exists>this. LtEncoder_constructor id [0x61] 1 False = Some (Inr this)
     \<and> this_k this = 1 \<and> this_checksum this = - 390611390"
proof -
  have "sliceData [0x61] 1 = Some (Inr [[0x61]])"
    by code_simp
  moreover have "getChecksum [0x61] 1 = - 390611390"
    by code_simp
  ultimately show ?thesis
    by (simp add: LtEncoder_constructor_def Let_def)
qed

section \<open>Slicing: properties\<close>

lemma typed_set_chunk:
  "typed_set (replicate blockSize 0) (slice xs i (i + blockSize)) 0 = Inr (padded_chunk xs blockSize i)"
  by (simp add: typed_set_def slice_def padded_chunk_def)

lemma chunk_count_step:
  assumes "1 \<le> b" "i < n"
  shows "(n - i + b - 1) div b = Suc ((n - (i + b) + b - 1) div b)"
proof (cases "i + b \<le> n")
  case True
  define m where "m = n - (i + b) + b - 1"
  have "n - i + b - 1 = m + b"
    using True assms by (simp add: m_def)
  then have "(n - i + b - 1) div b = (m + b) div b"
    by (simp only:)
  also have "\<dots> = Suc (m div b)"
    using assms by simp
  finally show ?thesis
    unfolding m_def .
next
  case False
  have "b * 1 \<le> n - i + b - 1" and "n - i + b - 1 < b * Suc 1"
    using assms False by simp_all
  then have "(n - i + b - 1) div b = 1"
    by (rule div_nat_eqI)
  moreover have "(n - (i + b) + b - 1) div b = 0"
    using assms False by simp
  ultimately show ?thesis
    by simp
qed

lemma sliceData_loop_eq:
  assumes "1 \<le> blockSize"
  shows "sliceData_loop xs blockSize i blocks =
         Some (Inr (blocks @ map (\<lambda>j. padded_chunk xs blockSize (i + j * blockSize))
                                 [0..<(length xs - i + blockSize - 1) div blockSize]))"
proof (induction "length xs - i" arbitrary: i blocks rule: less_induct)
  case less
  show ?case
  proof (cases "i < length xs")
    case False
    then have "(length xs - i + blockSize - 1) div blockSize = 0"
      using assms by simp
    then show ?thesis using False by (subst sliceData_loop.simps) simp
  next
    case True
    have lt: "length xs - (i + blockSize) < length xs - i"
      using True assms by simp
    have "sliceData_loop xs blockSize i blocks =
          sliceData_loop xs blockSize (i + blockSize) (blocks @ [padded_chunk xs blockSize i])"
      using True by (subst sliceData_loop.simps) (simp add: typed_set_chunk)
    also have "\<dots> = Some (Inr ((blocks @ [padded_chunk xs blockSize i]) @
         map (\<lambda>j. padded_chunk xs blockSize (i + blockSize + j * blockSize))
             [0..<(length xs - (i + blockSize) + blockSize - 1) div blockSize]))"
      by (rule less.hyps [OF lt])
    also have "\<dots> = Some (Inr (blocks @ map (\<lambda>j. padded_chunk xs blockSize (i + j * blockSize))
                                 [0..<(length xs - i + blockSize - 1) div blockSize]))"
      unfolding chunk_count_step [OF assms True] map_upt_Suc
      by (simp add: ac_simps)
    finally show ?thesis .
  qed
qed


lemma length_padded_chunk: "length (padded_chunk xs blockSize i) = blockSize"
  by (simp add: padded_chunk_def)

lemma ceiling_div_nat:
  assumes "1 \<le> b"
  shows "nat \<lceil>real n / real b\<rceil> = (n + b - 1) div b"
proof -
  define q where "q = (n + b - 1) div b"
  define r where "r = (n + b - 1) mod b"
  have b: "0 < b" using assms by simp
  have eq: "n + b - 1 = q * b + r" by (simp add: q_def r_def)
  have r: "r < b" using b by (simp add: r_def)
  have up: "n \<le> q * b" using eq r b by linarith
  have lo: "q * b < n + b" using eq r b by linarith
  have "real n \<le> real q * real b"
    using up by (metis of_nat_le_iff of_nat_mult)
  then have 1: "real n / real b \<le> of_int (int q)"
    using b by (simp add: divide_le_eq)
  have "real q * real b < real n + real b"
    using lo by (metis of_nat_less_iff of_nat_mult of_nat_add)
  then have "(real q - 1) * real b < real n"
    by (simp add: algebra_simps)
  then have 2: "of_int (int q) - 1 < real n / real b"
    using b by (simp add: less_divide_eq)
  have "\<lceil>real n / real b\<rceil> = int q"
    using 1 2 by (intro ceiling_unique) simp_all
  then show ?thesis by (simp add: q_def)
qed

lemma concat_chunks:
  assumes "1 \<le> blockSize" "m * blockSize < length xs + blockSize"
  shows "concat (map (\<lambda>j. padded_chunk xs blockSize (j * blockSize)) [0..<m]) =
         take (m * blockSize) xs @ replicate (m * blockSize - length xs) 0"
  using assms(2)
proof (induction m)
  case 0
  then show ?case by simp
next
  case (Suc m)
  then have le: "m * blockSize \<le> length xs" by simp
  then have IH: "concat (map (\<lambda>j. padded_chunk xs blockSize (j * blockSize)) [0..<m]) =
         take (m * blockSize) xs" using Suc by simp
  have A: "take (m * blockSize + blockSize) xs =
        take (m * blockSize) xs @ take blockSize (drop (m * blockSize) xs)"
    by (rule take_add)
  have B: "blockSize - length (take blockSize (drop (m * blockSize) xs)) =
        m * blockSize + blockSize - length xs"
    using le by (auto simp: min_def)
  have "concat (map (\<lambda>j. padded_chunk xs blockSize (j * blockSize)) [0..<Suc m]) =
        concat (map (\<lambda>j. padded_chunk xs blockSize (j * blockSize)) [0..<m]) @
        padded_chunk xs blockSize (m * blockSize)"
    by simp
  also have "\<dots> = take (m * blockSize) xs @ padded_chunk xs blockSize (m * blockSize)"
    by (simp only: IH)
  also have "\<dots> = take (m * blockSize + blockSize) xs @
                     replicate (m * blockSize + blockSize - length xs) 0"
    unfolding padded_chunk_def A B by simp
  finally show ?case
    by (simp add: add.commute)
qed


lemma chunk_count_bounds:
  assumes "1 \<le> b"
  shows "((n + b - 1) div b) * b < n + b" and "(n::nat) \<le> ((n + b - 1) div b) * b"
proof -
  define q where "q = (n + b - 1) div b"
  define r where "r = (n + b - 1) mod b"
  have b: "0 < b" using assms by simp
  have eq: "n + b - 1 = q * b + r" by (simp add: q_def r_def)
  have r: "r < b" using b by (simp add: r_def)
  show "((n + b - 1) div b) * b < n + b" using eq r b unfolding q_def [symmetric] by linarith
  show "n \<le> ((n + b - 1) div b) * b" using eq r b unfolding q_def [symmetric] by linarith
qed

text \<open>
  C9. For a non-empty input and \<open>blockSize \<ge> 1\<close>, \<open>sliceData\<close> returns
  \<open>ceil(length / blockSize)\<close> slices of exactly \<open>blockSize\<close> bytes each; slice \<open>j\<close> is
  the input from \<open>j * blockSize\<close> on, the last one is the rest of the input followed by
  zeros, and together they are the input followed by the padding.
\<close>

theorem sliceData_partition:
  assumes "xs \<noteq> []" and "1 \<le> blockSize"
  shows "\<exists>blocks.
      sliceData xs blockSize = Some (Inr blocks)
    \<and> length blocks = nat \<lceil>real (length xs) / real blockSize\<rceil>
    \<and> (\<forall>b\<in>set blocks. length b = blockSize)
    \<and> (\<forall>j<length blocks. blocks ! j =
          take blockSize (drop (j * blockSize) xs)
          @ replicate (blockSize - length (take blockSize (drop (j * blockSize) xs))) 0)
    \<and> last blocks = drop ((length blocks - 1) * blockSize) xs
                      @ replicate (length blocks * blockSize - length xs) 0
    \<and> concat blocks = xs @ replicate (length blocks * blockSize - length xs) 0"
proof -
  define m where "m = (length xs + blockSize - 1) div blockSize"
  define blocks where "blocks = map (\<lambda>j. padded_chunk xs blockSize (j * blockSize)) [0..<m]"
  have len: "length blocks = m"
    by (simp add: blocks_def)
  have up: "length xs \<le> m * blockSize" and lo: "m * blockSize < length xs + blockSize"
    using chunk_count_bounds [OF assms(2), of "length xs"] by (simp_all add: m_def)
  have m_pos: "0 < m"
    using up assms(1) by (cases m) simp_all
  obtain m' where m': "m = Suc m'"
    using m_pos by (cases m) simp_all
  have lo': "m' * blockSize < length xs"
    using lo by (simp add: m')
  have 1: "sliceData xs blockSize = Some (Inr blocks)"
    unfolding sliceData_def sliceData_loop_eq [OF assms(2)]
    by (simp add: blocks_def m_def)
  have 2: "length blocks = nat \<lceil>real (length xs) / real blockSize\<rceil>"
    by (simp add: len m_def ceiling_div_nat [OF assms(2)])
  have 3: "\<forall>b\<in>set blocks. length b = blockSize"
    by (auto simp: blocks_def length_padded_chunk)
  have 4: "\<forall>j<length blocks. blocks ! j =
          take blockSize (drop (j * blockSize) xs)
          @ replicate (blockSize - length (take blockSize (drop (j * blockSize) xs))) 0"
    by (simp add: blocks_def padded_chunk_def)
  have "blocks \<noteq> []"
    using len m_pos by auto
  then have "last blocks = blocks ! (m - 1)"
    by (simp add: last_conv_nth len)
  also have "\<dots> = padded_chunk xs blockSize ((m - 1) * blockSize)"
    using m_pos by (simp add: blocks_def)
  also have "\<dots> = drop ((m - 1) * blockSize) xs @ replicate (m * blockSize - length xs) 0"
  proof -
    have "length xs - m' * blockSize \<le> blockSize"
      using up by (simp add: m')
    moreover have "blockSize - (length xs - m' * blockSize) = m * blockSize - length xs"
      using up lo' by (simp add: m')
    ultimately show ?thesis
      by (simp add: padded_chunk_def min_def m')
  qed
  finally have 5: "last blocks = drop ((length blocks - 1) * blockSize) xs
                      @ replicate (length blocks * blockSize - length xs) 0"
    by (simp add: len)
  have 6: "concat blocks = xs @ replicate (length blocks * blockSize - length xs) 0"
    using concat_chunks [OF assms(2) lo] up by (simp add: blocks_def)
  from 1 2 3 4 5 6 show ?thesis
    by blast
qed

theorem sliceData_partition_witness:
  "\<exists>blocks. sliceData [1, 2, 3, 4, 5] 2 = Some (Inr blocks) \<and> blocks = [[1, 2], [3, 4], [5, 0]]
     \<and> length blocks = nat \<lceil>real (length [1, 2, 3, 4, 5 :: u8]) / real (2 :: nat)\<rceil>"
proof -
  have "[1, 2, 3, 4, 5 :: u8] \<noteq> []" and "(1::nat) \<le> 2"
    by simp_all
  from sliceData_partition [OF this] obtain blocks where
    b: "sliceData [1, 2, 3, 4, 5] 2 = Some (Inr blocks)"
       "length blocks = nat \<lceil>real (length [1, 2, 3, 4, 5 :: u8]) / real (2 :: nat)\<rceil>"
    by blast
  have "sliceData [1, 2, 3, 4, 5] 2 = Some (Inr [[1, 2], [3, 4], [5, 0]])"
    by code_simp
  with b(1) have "blocks = [[1, 2], [3, 4], [5, 0]]"
    by simp
  with b show ?thesis
    by blast
qed

lemma sliceData_loop_diverges:
  assumes "sliceData_loop xs blockSize i blocks = Some y"
  shows "\<not> (blockSize = 0 \<and> i < length xs)"
proof (rule sliceData_loop.raw_induct
    [where P = "\<lambda>xs blockSize i blocks y. \<not> (blockSize = 0 \<and> i < length xs)", OF _ assms])
  fix f xs blockSize i blocks and y :: "error + u8 list list"
  assume IH: "\<And>xs blockSize i blocks y. f xs blockSize i blocks = Some y
                \<Longrightarrow> \<not> (blockSize = 0 \<and> i < length xs)"
    and body: "(if i < length xs
      then (case typed_set (replicate blockSize 0) (slice xs i (i + blockSize)) 0 of
              Inl e \<Rightarrow> Some (Inl e)
            | Inr block \<Rightarrow> f xs blockSize (i + blockSize) (blocks @ [block]))
      else Some (Inr blocks)) = Some y"
  show "\<not> (blockSize = 0 \<and> i < length xs)"
  proof
    assume a: "blockSize = 0 \<and> i < length xs"
    with body have "f xs 0 i (blocks @ [[]]) = Some y"
      by (simp add: typed_set_def slice_def)
    from IH [OF this] a show False by simp
  qed
qed

lemma sliceData_Some_cases:
  assumes "sliceData xs blockSize = Some r"
  shows "1 \<le> blockSize \<or> xs = []"
  using sliceData_loop_diverges [of xs blockSize 0 "[]" r] assms
  by (auto simp: sliceData_def)

lemma sliceData_empty: "sliceData [] blockSize = Some (Inr [])"
  unfolding sliceData_def by (subst sliceData_loop.simps) simp

lemma sliceData_result:
  assumes "1 \<le> blockSize"
  shows "sliceData xs blockSize =
         Some (Inr (map (\<lambda>j. padded_chunk xs blockSize (j * blockSize))
                        [0..<(length xs + blockSize - 1) div blockSize]))"
  unfolding sliceData_def sliceData_loop_eq [OF assms] by simp

lemma sliceData_slices_length:
  assumes "sliceData xs blockSize = Some (Inr slices)"
  shows "\<forall>s\<in>set slices. length s = blockSize"
proof (cases "1 \<le> blockSize")
  case True
  from assms show ?thesis
    unfolding sliceData_result [OF True] by (auto simp: length_padded_chunk)
next
  case False
  with sliceData_Some_cases [OF assms] have "xs = []" by simp
  with assms show ?thesis by (simp add: sliceData_empty)
qed

lemma sliceData_no_error: "sliceData xs blockSize \<noteq> Some (Inl e)"
proof (cases "1 \<le> blockSize")
  case True
  then show ?thesis by (simp add: sliceData_result)
next
  case False
  show ?thesis
  proof
    assume a: "sliceData xs blockSize = Some (Inl e)"
    with sliceData_Some_cases [OF a] False have "xs = []" by simp
    with a show False by (simp add: sliceData_empty)
  qed
qed

section \<open>Fountain encoder: properties\<close>

lemma createBlock_xor_eq:
  assumes "length acc = sliceSize" "i \<le> sliceSize"
  shows "createBlock_xor sliceSize s i acc =
         take i acc @ map (\<lambda>j. (acc ! j) XOR byte_at s j) [i..<sliceSize]"
  using assms
proof (induction sliceSize s i acc rule: createBlock_xor.induct)
  case (1 sliceSize s i acc)
  show ?case
  proof (cases "i < sliceSize")
    case False
    with 1 show ?thesis by (subst createBlock_xor.simps) simp
  next
    case True
    let ?acc = "acc[i := (acc ! i) XOR byte_at s i]"
    have "createBlock_xor sliceSize s i acc = createBlock_xor sliceSize s (i + 1) ?acc"
      using True by (subst createBlock_xor.simps) simp
    also have "\<dots> = take (i + 1) ?acc @ map (\<lambda>j. (?acc ! j) XOR byte_at s j) [i + 1..<sliceSize]"
      using 1 True by simp
    also have "take (i + 1) ?acc = take i acc @ [(acc ! i) XOR byte_at s i]"
      using True 1(2) by (simp add: take_Suc_conv_app_nth)
    also have "map (\<lambda>j. (?acc ! j) XOR byte_at s j) [i + 1..<sliceSize] =
               map (\<lambda>j. (acc ! j) XOR byte_at s j) [i + 1..<sliceSize]"
      by (rule map_cong) auto
    finally show ?thesis
      using True by (simp add: upt_conv_Cons)
  qed
qed

lemma createBlock_xor_zip:
  assumes "length acc = sliceSize" "length s = sliceSize"
  shows "createBlock_xor sliceSize s 0 acc = map2 (XOR) acc s"
  using assms
  by (simp add: createBlock_xor_eq byte_at_def list_eq_iff_nth_eq)


lemma fold_xor_length:
  assumes "\<forall>index\<in>set selected. length (slices ! nat index) = n" "length acc = n"
  shows "length (fold (\<lambda>index a. map2 (XOR) a (slices ! nat index)) selected acc) = n"
  using assms by (induction selected arbitrary: acc) simp_all

lemma fold_xor_nth:
  assumes "\<forall>index\<in>set selected. length (slices ! nat index) = n" "length acc = n" "j < n"
  shows "fold (\<lambda>index a. map2 (XOR) a (slices ! nat index)) selected acc ! j =
         fold (\<lambda>index b. b XOR (slices ! nat index) ! j) selected (acc ! j)"
  using assms by (induction selected arbitrary: acc) simp_all

lemma createBlock_loop_fold:
  assumes "\<forall>index\<in>set selected. 0 \<le> index \<and> index < int (length (this_indices this))"
    and "\<forall>s\<in>set (this_indices this). length s = this_sliceSize this"
    and "length acc = this_sliceSize this"
  shows "createBlock_loop this selected acc =
         Inr (fold (\<lambda>index a. map2 (XOR) a (this_indices this ! nat index)) selected acc)"
  using assms
proof (induction selected arbitrary: acc)
  case Nil
  then show ?case by simp
next
  case (Cons index rest)
  then have idx: "0 \<le> index" "nat index < length (this_indices this)"
    by auto
  then have len: "length (this_indices this ! nat index) = this_sliceSize this"
    using Cons.prems(2) by simp
  have at: "slice_at (this_indices this) index = Some (this_indices this ! nat index)"
    using idx by (simp add: slice_at_def)
  have x: "createBlock_xor (this_sliceSize this) (this_indices this ! nat index) 0 acc =
        map2 (XOR) acc (this_indices this ! nat index)"
    using Cons.prems(3) len by (rule createBlock_xor_zip)
  show ?case
    using Cons.prems len by (simp add: at x Cons.IH)
qed

lemma constructor_fields:
  assumes "LtEncoder_constructor deflate payload sliceSize compress = Some (Inr this)"
  shows "this_sliceSize this = sliceSize"
    and "this_data this = payload"
    and "this_compressed this = (if compress then deflate payload else payload)"
    and "sliceData (this_compressed this) sliceSize = Some (Inr (this_indices this))"
    and "this_k this = int (length (this_indices this))"
    and "this_bytes this = int (length (this_compressed this))"
    and "this_checksum this = getChecksum payload (this_k this)"
  using assms
  by (auto simp: LtEncoder_constructor_def Let_def split: option.splits sum.splits)

text \<open>
  C6. For an encoder built by the constructor and indices that are all slice positions,
  \<open>createBlock\<close> returns a block whose data has \<open>sliceSize\<close> bytes, each the XOR (from
  zero) of that byte of the named slices; for a single index the data is that slice. The
  block carries the encoder's \<open>k\<close>, \<open>bytes\<close> and \<open>checksum\<close> and the given indices, and
  the encoder is left as it was.
\<close>

theorem createBlock_xor_of_slices:
  assumes "LtEncoder_constructor deflate payload sliceSize compress = Some (Inr this)"
    and "\<forall>index\<in>set selected. 0 \<le> index \<and> index < this_k this"
  shows "\<exists>block.
      createBlock this selected = Inr (block, this)
    \<and> length (block_data block) = sliceSize
    \<and> (\<forall>j. j < sliceSize \<longrightarrow> block_data block ! j =
          fold (\<lambda>index b. b XOR (this_indices this ! nat index) ! j) selected 0)
    \<and> (\<forall>i. selected = [i] \<longrightarrow> block_data block = this_indices this ! nat i)
    \<and> block_k block = this_k this
    \<and> block_bytes block = this_bytes this
    \<and> block_checksum block = this_checksum this
    \<and> block_indices block = selected"
proof -
  note f = constructor_fields [OF assms(1)]
  have lens: "\<forall>s\<in>set (this_indices this). length s = this_sliceSize this"
    using sliceData_slices_length [OF f(4)] by (simp add: f(1))
  have valid: "\<forall>index\<in>set selected. 0 \<le> index \<and> index < int (length (this_indices this))"
    using assms(2) by (simp add: f(5))
  then have sel: "\<forall>index\<in>set selected. length (this_indices this ! nat index) = sliceSize"
    using lens by (auto simp: f(1))
  define acc where
    "acc = fold (\<lambda>index a. map2 (XOR) a (this_indices this ! nat index)) selected
             (replicate sliceSize 0)"
  define block where
    "block = \<lparr>block_k = this_k this, block_bytes = this_bytes this,
              block_checksum = this_checksum this, block_indices = selected,
              block_data = acc\<rparr>"
  have loop: "createBlock_loop this selected (replicate (this_sliceSize this) 0) = Inr acc"
    using createBlock_loop_fold [OF valid lens, of "replicate (this_sliceSize this) 0"]
    by (simp add: acc_def f(1))
  have 1: "createBlock this selected = Inr (block, this)"
    by (simp add: createBlock_def loop block_def)
  have 2: "length acc = sliceSize"
    unfolding acc_def by (rule fold_xor_length [OF sel]) simp
  have 3: "\<forall>j. j < sliceSize \<longrightarrow> acc ! j =
          fold (\<lambda>index b. b XOR (this_indices this ! nat index) ! j) selected 0"
    unfolding acc_def by (simp add: fold_xor_nth [OF sel])
  have 4: "\<forall>i. selected = [i] \<longrightarrow> acc = this_indices this ! nat i"
  proof (intro allI impI)
    fix i assume s: "selected = [i]"
    with sel have "length (this_indices this ! nat i) = sliceSize" by simp
    then show "acc = this_indices this ! nat i"
      by (simp add: acc_def s list_eq_iff_nth_eq)
  qed
  from 1 2 3 4 show ?thesis
    by (intro exI [of _ block]) (simp add: block_def)
qed

theorem createBlock_xor_of_slices_witness:
  "\<exists>this block.
      LtEncoder_constructor id [1, 2, 3, 4, 5] 2 False = Some (Inr this)
    \<and> createBlock this [0, 2] = Inr (block, this)
    \<and> block_data block = [4, 2]"
proof -
  define this where "this =
    \<lparr>this_data = [1, 2, 3, 4, 5 :: u8], this_sliceSize = 2, this_compress = False,
     this_compressed = [1, 2, 3, 4, 5], this_indices = [[1, 2], [3, 4], [5, 0]], this_k = 3,
     this_checksum = getChecksum [1, 2, 3, 4, 5] 3, this_bytes = 5\<rparr>"
  have sd: "sliceData [1, 2, 3, 4, 5] 2 = Some (Inr [[1, 2], [3, 4], [5, 0]])"
    by code_simp
  have c: "LtEncoder_constructor id [1, 2, 3, 4, 5] 2 False = Some (Inr this)"
    by (simp add: LtEncoder_constructor_def Let_def sd this_def)
  have v: "\<forall>index\<in>set [0, 2]. 0 \<le> index \<and> index < this_k this"
    by (simp add: this_def)
  from createBlock_xor_of_slices [OF c v] obtain block where
    b: "createBlock this [0, 2] = Inr (block, this)"
       "\<forall>j<2. block_data block ! j =
          fold (\<lambda>index b. b XOR (this_indices this ! nat index) ! j) [0, 2] 0"
       "length (block_data block) = 2"
    by blast
  have "block_data block ! 0 = 4" and "block_data block ! 1 = 2"
    using b(2) by (simp_all add: this_def)
  with b(3) have "block_data block = [4, 2]"
    by (simp add: list_eq_iff_nth_eq less_Suc_eq numeral_2_eq_2)
  with c b(1) show ?thesis
    by blast
qed

section \<open>Soliton sampler: properties\<close>

lemma draw_ok_exact:
  assumes "1 \<le> n"
  shows "draw_ok (\<lambda>x. x) n r \<longleftrightarrow> 0 \<le> r \<and> r < 1"
  using assms by (auto simp: draw_ok_def)

lemma randomIndex_range:
  assumes "draw_ok fl n r"
  shows "0 \<le> randomIndex fl n r" and "randomIndex fl n r < int n"
  using assms by (simp_all add: draw_ok_def randomIndex_def floor_less_iff)

lemma distinct_Set_add: "distinct s \<Longrightarrow> distinct (Set_add s x)"
  by (simp add: Set_add_def)

lemma set_Set_add: "set (Set_add s x) = insert x (set s)"
  by (auto simp: Set_add_def)

lemma length_Set_add: "length (Set_add s x) \<le> Suc (length s)"
  by (simp add: Set_add_def)

lemma getRandomIndices_loop_inv:
  assumes "getRandomIndices_loop fl n degree s rnd = Some (xs, rest)"
    and "distinct s" and "\<forall>x\<in>set s. 0 \<le> x \<and> x < int n" and "length s \<le> degree"
    and "\<forall>r\<in>set rnd. draw_ok fl n r"
  shows "length xs = degree \<and> distinct xs \<and> (\<forall>x\<in>set xs. 0 \<le> x \<and> x < int n)
       \<and> (\<exists>used. rnd = used @ rest
             \<and> xs = fold (\<lambda>r s. Set_add s (randomIndex fl n r)) used s)"
  using assms
proof (induction rnd arbitrary: s)
  case Nil
  then show ?case
    by (subst (asm) getRandomIndices_loop.simps) (auto split: if_splits)
next
  case (Cons r rnd)
  show ?case
  proof (cases "length s < degree")
    case False
    with Cons.prems show ?thesis
      by (subst (asm) getRandomIndices_loop.simps) auto
  next
    case True
    let ?s = "Set_add s (randomIndex fl n r)"
    have run: "getRandomIndices_loop fl n degree ?s rnd = Some (xs, rest)"
      using Cons.prems(1) True by (subst (asm) getRandomIndices_loop.simps) simp
    have ok: "draw_ok fl n r"
      using Cons.prems(5) by simp
    have "distinct ?s"
      using Cons.prems(2) by (rule distinct_Set_add)
    moreover have "\<forall>x\<in>set ?s. 0 \<le> x \<and> x < int n"
      using Cons.prems(3) randomIndex_range [OF ok] by (simp add: set_Set_add)
    moreover have "length ?s \<le> degree"
      using True length_Set_add [of s "randomIndex fl n r"] by simp
    moreover have "\<forall>r\<in>set rnd. draw_ok fl n r"
      using Cons.prems(5) by simp
    ultimately have IH: "length xs = degree \<and> distinct xs \<and> (\<forall>x\<in>set xs. 0 \<le> x \<and> x < int n)
       \<and> (\<exists>used. rnd = used @ rest
             \<and> xs = fold (\<lambda>r s. Set_add s (randomIndex fl n r)) used ?s)"
      using Cons.IH [OF run] by blast
    then obtain used where u: "rnd = used @ rest"
        "xs = fold (\<lambda>r s. Set_add s (randomIndex fl n r)) used ?s"
      by blast
    then have "r # rnd = (r # used) @ rest
        \<and> xs = fold (\<lambda>r s. Set_add s (randomIndex fl n r)) (r # used) s"
      by simp
    with IH show ?thesis
      by blast
  qed
qed

lemma getRandomIndices_loop_returns:
  assumes "degree \<le> card (set s \<union> randomIndex fl n ` set rnd)"
  shows "\<exists>xs rest. getRandomIndices_loop fl n degree s rnd = Some (xs, rest)"
  using assms
proof (induction rnd arbitrary: s)
  case Nil
  then have "degree \<le> length s"
    using card_length [of s] by simp
  then show ?case
    by (subst getRandomIndices_loop.simps) simp
next
  case (Cons r rnd)
  have "set (Set_add s (randomIndex fl n r)) \<union> randomIndex fl n ` set rnd =
        set s \<union> randomIndex fl n ` set (r # rnd)"
    by (auto simp: set_Set_add)
  with Cons.prems have "degree \<le> card (set (Set_add s (randomIndex fl n r)) \<union> randomIndex fl n ` set rnd)"
    by simp
  from Cons.IH [OF this] show ?case
    by (subst getRandomIndices_loop.simps) simp
qed

lemma getRandomIndices_returns:
  assumes "degree \<le> card (randomIndex fl n ` set rnd)"
  shows "\<exists>xs rest. getRandomIndices fl n degree rnd = Some (xs, rest)"
  using getRandomIndices_loop_returns [of degree "[]" fl n rnd] assms
  by (simp add: getRandomIndices_def)

text \<open>
  C7. For \<open>k \<ge> 1\<close> and \<open>1 \<le> degree \<le> k\<close>, whatever the draws are, a call of
  \<open>getRandomIndices(k, degree)\<close> that returns gives exactly \<open>degree\<close> distinct integers,
  all in \<open>[0, k)\<close>; for \<open>degree = k\<close> they are all the indices. (By
  \<open>getRandomIndices_returns\<close> the call returns as soon as the draws have named \<open>degree\<close>
  different indices.)
\<close>

theorem getRandomIndices_distinct_in_range:
  assumes "1 \<le> n" and "1 \<le> degree" and "degree \<le> n"
    and "\<forall>r\<in>set rnd. draw_ok fl n r"
    and "getRandomIndices fl n degree rnd = Some (xs, rest)"
  shows "length xs = degree \<and> distinct xs \<and> (\<forall>x\<in>set xs. 0 \<le> x \<and> x < int n)
       \<and> (degree = n \<longrightarrow> set xs = {0..<int n})"
proof -
  have inv: "length xs = degree \<and> distinct xs \<and> (\<forall>x\<in>set xs. 0 \<le> x \<and> x < int n)"
    using getRandomIndices_loop_inv [of fl n degree "[]" rnd xs rest] assms(4,5)
    by (simp add: getRandomIndices_def)
  have "set xs = {0..<int n}" if "degree = n"
  proof (rule card_subset_eq)
    show "finite {0..<int n}" by simp
    show "set xs \<subseteq> {0..<int n}" using inv by auto
    have "card (set xs) = n"
      using inv that by (simp add: distinct_card)
    then show "card (set xs) = card {0..<int n}" by simp
  qed
  with inv show ?thesis
    by blast
qed

theorem getRandomIndices_distinct_in_range_witness:
  "getRandomIndices (\<lambda>x. x) 3 3 [0.9, 0.9, 0.1, 0.5, 0.7] = Some ([2, 0, 1], [0.7])
   \<and> set [2, 0, 1] = {0..<int 3}"
proof -
  have run: "getRandomIndices (\<lambda>x. x) 3 3 [0.9, 0.9, 0.1, 0.5, 0.7] = Some ([2, 0, 1], [0.7])"
    by (simp add: getRandomIndices_def getRandomIndices_loop.simps Set_add_def randomIndex_def)
  have ok: "\<forall>r\<in>set [0.9, 0.9, 0.1, 0.5, 0.7]. draw_ok (\<lambda>x. x) 3 r"
    by (simp add: draw_ok_def)
  have "(1::nat) \<le> 3" "(3::nat) \<le> 3"
    by simp_all
  from getRandomIndices_distinct_in_range [OF this(1) this(1) this(2) ok run] run
  show ?thesis
    by simp
qed

lemma length_probabilities_loop:
  "length (probabilities_loop fl n d ps) = length ps"
proof (induction fl n d ps rule: probabilities_loop.induct)
  case (1 fl n d ps)
  then show ?case
    by (subst probabilities_loop.simps) simp
qed

lemma nth_probabilities_loop:
  assumes "1 \<le> d" "j < length ps"
  shows "probabilities_loop fl n d ps ! j =
         (if d - 1 \<le> j \<and> j < n then fl (1 / fl (real (j + 1) * real j)) else ps ! j)"
  using assms
proof (induction fl n d ps rule: probabilities_loop.induct)
  case (1 fl n d ps)
  show ?case
  proof (cases "d \<le> n")
    case False
    then have "\<not> (d - 1 \<le> j \<and> j < n)"
      using 1(2) by linarith
    with False show ?thesis
      by (subst probabilities_loop.simps) auto
  next
    case True
    let ?ps = "ps[d - 1 := fl (1 / fl (real d * real (d - 1)))]"
    have "probabilities_loop fl n d ps ! j = probabilities_loop fl n (d + 1) ?ps ! j"
      using True by (subst probabilities_loop.simps) simp
    also have "\<dots> = (if d \<le> j \<and> j < n then fl (1 / fl (real (j + 1) * real j)) else ?ps ! j)"
      using "1.IH" [OF True] "1.prems" by simp
    also have "\<dots> = (if d - 1 \<le> j \<and> j < n then fl (1 / fl (real (j + 1) * real j)) else ps ! j)"
    proof (cases "j = d - 1")
      case eq: True
      then have d: "d = j + 1"
        using "1.prems"(1) by simp
      have "\<not> d \<le> j" "d - 1 \<le> j" "j < n"
        using d True by simp_all
      moreover have "?ps ! j = fl (1 / fl (real (j + 1) * real j))"
        using "1.prems"(2) by (simp add: d)
      ultimately show ?thesis
        by simp
    next
      case False
      then have "?ps ! j = ps ! j" and "d \<le> j \<longleftrightarrow> d - 1 \<le> j"
        by auto
      then show ?thesis
        by simp
    qed
    finally show ?thesis .
  qed
qed

lemma length_cumulativeProbabilities:
  "length (cumulativeProbabilities fl acc ps) = length ps"
  by (induction ps arbitrary: acc) simp_all

lemma length_soliton_table: "length (soliton_table fl n) = n"
  by (simp add: soliton_table_def length_cumulativeProbabilities length_probabilities_loop)

lemma degree_scan_Some:
  assumes "degree_scan r cs i = Some d"
  shows "i < d \<and> d \<le> i + length cs \<and> r < cs ! (d - i - 1)
       \<and> (\<forall>j. j < d - i - 1 \<longrightarrow> \<not> r < cs ! j)"
  using assms
proof (induction cs arbitrary: i)
  case Nil
  then show ?case by simp
next
  case (Cons c cs)
  show ?case
  proof (cases "r < c")
    case True
    with Cons.prems show ?thesis by auto
  next
    case False
    with Cons.prems have "degree_scan r cs (i + 1) = Some d" by simp
    from Cons.IH [OF this] have IH: "i + 1 < d" "d \<le> i + 1 + length cs"
        "r < cs ! (d - (i + 1) - 1)" "\<forall>j. j < d - (i + 1) - 1 \<longrightarrow> \<not> r < cs ! j"
      by blast+
    have eq: "d - i - 1 = Suc (d - (i + 1) - 1)"
      using IH(1) by simp
    have "\<not> r < (c # cs) ! j" if "j < d - i - 1" for j
      using that False IH(4) eq by (cases j) simp_all
    then show ?thesis
      using IH eq by simp
  qed
qed

lemma degree_scan_None:
  assumes "degree_scan r cs i = None"
  shows "\<forall>j. j < length cs \<longrightarrow> \<not> r < cs ! j"
  using assms
proof (induction cs arbitrary: i)
  case Nil
  then show ?case by simp
next
  case (Cons c cs)
  then have c: "\<not> r < c" and "degree_scan r cs (i + 1) = None"
    by (auto split: if_splits)
  from Cons.IH [OF this(2)] c show ?case
    by (auto simp: nth_Cons split: nat.splits)
qed

lemma nth_cumulative_exact:
  assumes "i < length ps"
  shows "cumulativeProbabilities (\<lambda>x. x) acc ps ! i = acc + sum_list (take (Suc i) ps)"
  using assms
proof (induction ps arbitrary: acc i)
  case Nil
  then show ?case by simp
next
  case (Cons p ps)
  then show ?case
    by (cases i) (simp_all add: add.assoc)
qed

lemma soliton_table_exact:
  assumes "1 \<le> d" "d \<le> n"
  shows "soliton_table (\<lambda>x. x) n ! (d - 1) = soliton_cumulative n d"
proof -
  define ps where "ps = probabilities_loop (\<lambda>x. x) n 2 ((replicate n 0)[0 := 1 / real n])"
  have len: "length ps = n"
    by (simp add: ps_def length_probabilities_loop)
  have nth: "ps ! j = soliton_P n (j + 1)" if "j < n" for j
  proof -
    have "ps ! j = (if 2 - 1 \<le> j \<and> j < n then 1 / (real (j + 1) * real j)
                    else ((replicate n 0)[0 := 1 / real n]) ! j)"
      unfolding ps_def using that by (subst nth_probabilities_loop) simp_all
    then show ?thesis
      using that by (cases j) (simp_all add: soliton_P_def)
  qed
  have "take d ps = map (\<lambda>j. soliton_P n (j + 1)) [0..<d]"
    using assms len nth by (intro nth_equalityI) simp_all
  then have "sum_list (take d ps) = (\<Sum>j\<leftarrow>[0..<d]. soliton_P n (j + 1))"
    by simp
  also have "\<dots> = (\<Sum>j = 0..<d. soliton_P n (j + 1))"
    by (simp add: interv_sum_list_conv_sum_set_nat)
  also have "\<dots> = (\<Sum>j = 1..d. soliton_P n j)"
    using sum.shift_bounds_cl_Suc_ivl [of "soliton_P n" 0 "d - 1"] assms
    by (simp add: atLeastLessThanSuc_atLeastAtMost [symmetric])
  finally have s: "sum_list (take d ps) = soliton_cumulative n d"
    by (simp add: soliton_cumulative_def)
  have "soliton_table (\<lambda>x. x) n ! (d - 1) = 0 + sum_list (take (Suc (d - 1)) ps)"
    unfolding soliton_table_def ps_def [symmetric]
    using assms len by (intro nth_cumulative_exact) simp
  with s assms show ?thesis
    by simp
qed


lemma soliton_table_one:
  assumes "fl 1 = 1"
  shows "soliton_table fl 1 = [1]"
proof -
  have "probabilities_loop fl 1 2 [fl 1] = [fl 1]"
    by (subst probabilities_loop.simps) simp
  then show ?thesis
    by (simp add: soliton_table_def assms)
qed

lemma getRandomDegree_scan:
  assumes "1 \<le> n"
  shows "1 \<le> getRandomDegree fl n r \<and> getRandomDegree fl n r \<le> n
    \<and> (\<forall>d. 1 \<le> d \<and> d < getRandomDegree fl n r \<longrightarrow> \<not> r < soliton_table fl n ! (d - 1))
    \<and> (r < soliton_table fl n ! (getRandomDegree fl n r - 1)
        \<or> getRandomDegree fl n r = n
          \<and> (\<forall>d. 1 \<le> d \<and> d \<le> n \<longrightarrow> \<not> r < soliton_table fl n ! (d - 1)))"
proof -
  let ?res = "getRandomDegree fl n r"
  let ?t = "soliton_table fl n"
  have n0: "n \<noteq> 0"
    using assms(1) by simp
  show ?thesis
  proof (cases "degree_scan r ?t 0")
    case None
    then have res: "?res = n"
      using n0 by (simp add: getRandomDegree_def)
    have "\<forall>d. 1 \<le> d \<and> d \<le> n \<longrightarrow> \<not> r < ?t ! (d - 1)"
    proof (intro allI impI)
      fix d assume "1 \<le> d \<and> d \<le> n"
      then have "d - 1 < n" by linarith
      then have "d - 1 < length ?t" by (simp add: length_soliton_table)
      with degree_scan_None [OF None] show "\<not> r < ?t ! (d - 1)" by blast
    qed
    then show ?thesis
      unfolding res using assms(1) by simp
  next
    case (Some d)
    then have res: "?res = d"
      using n0 by (simp add: getRandomDegree_def)
    from degree_scan_Some [OF Some] have s: "0 < d" "d \<le> n" "r < ?t ! (d - 1)"
        "\<forall>j. j < d - 1 \<longrightarrow> \<not> r < ?t ! j"
      by (simp_all add: length_soliton_table)
    have "\<forall>d'. 1 \<le> d' \<and> d' < d \<longrightarrow> \<not> r < ?t ! (d' - 1)"
    proof (intro allI impI)
      fix d' assume "1 \<le> d' \<and> d' < d"
      then have "d' - 1 < d - 1" by linarith
      with s(4) show "\<not> r < ?t ! (d' - 1)" by blast
    qed
    then show ?thesis
      unfolding res using s(1,2,3) by simp
  qed
qed

lemma nth_cumulative_fold:
  assumes "i < length ps"
  shows "cumulativeProbabilities fl acc ps ! i = fold (\<lambda>p a. fl (a + p)) (take (Suc i) ps) acc"
  using assms
proof (induction ps arbitrary: acc i)
  case Nil
  then show ?case by simp
next
  case (Cons p ps)
  then show ?case
    by (cases i) simp_all
qed

lemma soliton_table_rounded:
  assumes "1 \<le> d" "d \<le> k"
  shows "soliton_table fl k ! (d - 1) = soliton_cumulative_rounded fl k d"
proof -
  define ps where "ps = probabilities_loop fl k 2 ((replicate k 0)[0 := fl (1 / real k)])"
  have len: "length ps = k"
    by (simp add: ps_def length_probabilities_loop)
  have nth: "ps ! j = soliton_P_rounded fl k (j + 1)" if "j < k" for j
  proof -
    have "ps ! j = (if 2 - 1 \<le> j \<and> j < k then fl (1 / fl (real (j + 1) * real j))
                    else ((replicate k 0)[0 := fl (1 / real k)]) ! j)"
      unfolding ps_def using that by (subst nth_probabilities_loop) simp_all
    then show ?thesis
      using that by (cases j) (simp_all add: soliton_P_rounded_def)
  qed
  have run: "fold (\<lambda>p a. fl (a + p)) (take m ps) 0 = soliton_cumulative_rounded fl k m"
    if "m \<le> k" for m
    using that
  proof (induction m)
    case 0
    then show ?case by simp
  next
    case (Suc m)
    then have m: "m < length ps"
      by (simp add: len)
    have "take (Suc m) ps = take m ps @ [ps ! m]"
      using m by (rule take_Suc_conv_app_nth)
    then show ?case
      using Suc nth [of m] by simp
  qed
  have "soliton_table fl k ! (d - 1) = fold (\<lambda>p a. fl (a + p)) (take (Suc (d - 1)) ps) 0"
    unfolding soliton_table_def ps_def [symmetric]
    using assms len by (intro nth_cumulative_fold) simp
  with run [OF assms(2)] assms(1) show ?thesis
    by simp
qed

lemma soliton_P_rounded_exact: "soliton_P_rounded (\<lambda>x. x) k d = soliton_P k d"
  by (cases d) (simp_all add: soliton_P_rounded_def soliton_P_def)

lemma soliton_cumulative_rounded_exact:
  "soliton_cumulative_rounded (\<lambda>x. x) k d = soliton_cumulative k d"
  by (induction d) (simp_all add: soliton_cumulative_def soliton_P_rounded_exact)


lemma soliton_table_binary64_k3:
  "soliton_table binary64_k3 3 =
     [6004799503160661 / 2 ^ 54, 3752999689475413 / 2 ^ 52, 9007199254740991 / 2 ^ 53]"
proof -
  have p: "probabilities_loop binary64_k3 3 2 [6004799503160661 / 2 ^ 54, 0, 0] =
        [6004799503160661 / 2 ^ 54, 1 / 2, 6004799503160661 / 2 ^ 55]"
    by (simp add: probabilities_loop.simps binary64_k3_def)
  have r: "replicate 3 (0::real) = [0, 0, 0]"
    by (simp add: numeral_3_eq_3)
  have f: "binary64_k3 (1 / 3) = 6004799503160661 / 2 ^ 54"
    by (simp add: binary64_k3_def)
  have c: "cumulativeProbabilities binary64_k3 0
             [6004799503160661 / 2 ^ 54, 1 / 2, 6004799503160661 / 2 ^ 55] =
        [6004799503160661 / 2 ^ 54, 3752999689475413 / 2 ^ 52, 9007199254740991 / 2 ^ 53]"
    by (simp add: binary64_k3_def)
  show ?thesis
    using p c by (simp add: soliton_table_def r f)
qed

text \<open>
  C8. The claim: \<open>getRandomDegree(k)\<close> returns the smallest \<open>d\<close> whose Ideal Soliton
  cumulative probability exceeds the draw. The code compares the draw with the sums as
  double arithmetic gives them: for \<open>k = 3\<close> and the draw \<open>0.3333333333333333\<close>, the
  double next to \<open>1/3\<close> and below it, the first cumulative value is that same double,
  and the code returns 2 where the cumulative probability \<open>1/3\<close> of \<open>d = 1\<close> already
  exceeds the draw.
\<close>

theorem getRandomDegree_binary64_differs:
  "getRandomDegree binary64_k3 3 (6004799503160661 / 2 ^ 54) = 2
   \<and> (0::real) \<le> 6004799503160661 / 2 ^ 54 \<and> (6004799503160661::real) / 2 ^ 54 < 1
   \<and> 6004799503160661 / 2 ^ 54 < soliton_cumulative 3 1"
  by (simp add: getRandomDegree_def soliton_table_binary64_k3 soliton_cumulative_def soliton_P_def)

text \<open>
  C8, amended. For \<open>k \<ge> 1\<close> and a draw in \<open>[0, 1)\<close>, \<open>getRandomDegree(k)\<close> returns a
  degree in \<open>[1, k]\<close>: the smallest \<open>d\<close> whose cumulative Ideal Soliton probability, summed
  from \<open>P(1)\<close> upwards with every operation rounded as floating-point arithmetic rounds
  it, exceeds the draw, and \<open>k\<close> when no such sum exceeds the draw. Without rounding these
  sums are the exact cumulative probabilities. For \<open>k = 1\<close> the result is 1 (\<open>1 / 1\<close> and
  \<open>0 + 1\<close> are exact).
\<close>

theorem getRandomDegree_range:
  assumes "1 \<le> k" and "0 \<le> r" and "r < 1"
  shows "1 \<le> getRandomDegree fl k r \<and> getRandomDegree fl k r \<le> k
    \<and> (\<forall>d. 1 \<le> d \<and> d < getRandomDegree fl k r \<longrightarrow> \<not> r < soliton_cumulative_rounded fl k d)
    \<and> (r < soliton_cumulative_rounded fl k (getRandomDegree fl k r)
        \<or> getRandomDegree fl k r = k
          \<and> (\<forall>d. 1 \<le> d \<and> d \<le> k \<longrightarrow> \<not> r < soliton_cumulative_rounded fl k d))
    \<and> (\<forall>d. soliton_cumulative_rounded (\<lambda>x. x) k d = soliton_cumulative k d)
    \<and> (k = 1 \<and> fl 1 = 1 \<longrightarrow> getRandomDegree fl k r = 1)"
proof -
  let ?res = "getRandomDegree fl k r"
  have n0: "k \<noteq> 0"
    using assms(1) by simp
  note scan = getRandomDegree_scan [OF assms(1), of fl r]
  have range: "1 \<le> ?res" "?res \<le> k"
    using scan by simp_all
  have t: "soliton_table fl k ! (d - 1) = soliton_cumulative_rounded fl k d"
    if "1 \<le> d \<and> d \<le> k" for d
    using that by (intro soliton_table_rounded) simp_all
  have below: "\<forall>d. 1 \<le> d \<and> d < ?res \<longrightarrow> \<not> r < soliton_cumulative_rounded fl k d"
  proof (intro allI impI)
    fix d assume d: "1 \<le> d \<and> d < ?res"
    then have "\<not> r < soliton_table fl k ! (d - 1)"
      using scan by blast
    moreover have "1 \<le> d \<and> d \<le> k"
      using d range(2) by linarith
    ultimately show "\<not> r < soliton_cumulative_rounded fl k d"
      using t [of d] by simp
  qed
  have none: "\<forall>d. 1 \<le> d \<and> d \<le> k \<longrightarrow> \<not> r < soliton_cumulative_rounded fl k d"
    if "\<forall>d. 1 \<le> d \<and> d \<le> k \<longrightarrow> \<not> r < soliton_table fl k ! (d - 1)"
  proof (intro allI impI)
    fix d assume d: "1 \<le> d \<and> d \<le> k"
    with that have "\<not> r < soliton_table fl k ! (d - 1)"
      by blast
    then show "\<not> r < soliton_cumulative_rounded fl k d"
      using d t [of d] by simp
  qed
  have "soliton_table fl k ! (?res - 1) = soliton_cumulative_rounded fl k ?res"
    using range by (intro t) simp
  then have at: "r < soliton_cumulative_rounded fl k ?res
        \<or> ?res = k \<and> (\<forall>d. 1 \<le> d \<and> d \<le> k \<longrightarrow> \<not> r < soliton_cumulative_rounded fl k d)"
    using scan none by auto
  have exact: "\<forall>d. soliton_cumulative_rounded (\<lambda>x. x) k d = soliton_cumulative k d"
    by (simp add: soliton_cumulative_rounded_exact)
  have one: "k = 1 \<and> fl 1 = 1 \<longrightarrow> ?res = 1"
  proof
    assume a: "k = 1 \<and> fl 1 = 1"
    then have n1: "k = 1" and f: "fl 1 = 1"
      by simp_all
    have t1: "soliton_table fl k = [1]"
      unfolding n1 using f by (rule soliton_table_one [of fl])
    show "?res = 1"
      using assms(3) n0 by (simp add: getRandomDegree_def t1)
  qed
  from range below at exact one show ?thesis
    by blast
qed

theorem getRandomDegree_range_witness:
  "getRandomDegree binary64_k3 3 (9007199254740991 / 2 ^ 53) = 3
   \<and> \<not> 9007199254740991 / 2 ^ 53 < soliton_cumulative_rounded binary64_k3 3 3
   \<and> \<not> 9007199254740991 / 2 ^ 53 < soliton_cumulative_rounded binary64_k3 3 2"
proof -
  have g: "getRandomDegree binary64_k3 3 (9007199254740991 / 2 ^ 53) = 3"
    by (simp add: getRandomDegree_def soliton_table_binary64_k3)
  have "(1::nat) \<le> 3" "(0::real) \<le> 9007199254740991 / 2 ^ 53"
      "(9007199254740991::real) / 2 ^ 53 < 1"
    by simp_all
  from getRandomDegree_range [OF this, of binary64_k3]
  have below: "\<forall>d. 1 \<le> d \<and> d < getRandomDegree binary64_k3 3 (9007199254740991 / 2 ^ 53) \<longrightarrow>
           \<not> 9007199254740991 / 2 ^ 53 < soliton_cumulative_rounded binary64_k3 3 d"
    and at: "9007199254740991 / 2 ^ 53
            < soliton_cumulative_rounded binary64_k3 3
                (getRandomDegree binary64_k3 3 (9007199254740991 / 2 ^ 53))
        \<or> getRandomDegree binary64_k3 3 (9007199254740991 / 2 ^ 53) = 3
          \<and> (\<forall>d. 1 \<le> d \<and> d \<le> 3 \<longrightarrow>
                 \<not> 9007199254740991 / 2 ^ 53 < soliton_cumulative_rounded binary64_k3 3 d)"
    by blast+
  have c3: "soliton_cumulative_rounded binary64_k3 3 3 = 9007199254740991 / 2 ^ 53"
    using soliton_table_rounded [of 3 3 binary64_k3] by (simp add: soliton_table_binary64_k3)
  have "\<not> 9007199254740991 / 2 ^ 53 < soliton_cumulative_rounded binary64_k3 3 2"
    using below [rule_format, of 2] g by simp
  with g c3 show ?thesis
    by simp
qed

text \<open>
  The clamp is reached in binary64: for \<open>k = 3\<close> the last cumulative value is
  \<open>1 - 2^-53\<close>, and that draw gives \<open>k\<close>.
\<close>

lemma getRandomDegree_clamp_reached:
  "getRandomDegree binary64_k3 3 (9007199254740991 / 2 ^ 53) = 3
   \<and> last (soliton_table binary64_k3 3) = 9007199254740991 / 2 ^ 53"
  by (simp add: getRandomDegree_def soliton_table_binary64_k3)

lemma fountain_next_block:
  assumes c: "LtEncoder_constructor deflate payload sliceSize compress = Some (Inr this)"
    and k1: "1 \<le> this_k this"
    and ok: "\<forall>r\<in>set rnd. draw_ok fl (nat (this_k this)) r"
    and run: "fountain_next fl this rnd = Some result"
  shows "\<exists>block rest used r0.
      result = Inr (block, this, rest) \<and> rnd = r0 # used @ rest
    \<and> block_indices block \<noteq> [] \<and> distinct (block_indices block)
    \<and> (\<forall>i\<in>set (block_indices block). 0 \<le> i \<and> i < this_k this)
    \<and> length (block_indices block) = getRandomDegree fl (nat (this_k this)) r0
    \<and> block_indices block =
          fold (\<lambda>r s. Set_add s (randomIndex fl (nat (this_k this)) r)) used []
    \<and> block_k block = this_k this"
proof -
  let ?n = "nat (this_k this)"
  note f = constructor_fields [OF c]
  from run obtain r0 rnd1 where rnd: "rnd = r0 # rnd1"
    by (cases rnd) (simp_all add: fountain_next_def)
  let ?degree = "getRandomDegree fl ?n r0"
  have n1: "1 \<le> ?n"
    using k1 by simp
  have deg: "1 \<le> ?degree" "?degree \<le> ?n"
    using getRandomDegree_scan [OF n1, of fl r0] by simp_all
  from run rnd obtain selected rest where
    sel: "getRandomIndices_loop fl ?n ?degree [] rnd1 = Some (selected, rest)"
    by (auto simp: fountain_next_def getRandomIndices_def Let_def split: option.splits)
  have ok1: "\<forall>r\<in>set rnd1. draw_ok fl ?n r"
    using ok rnd by simp
  from getRandomIndices_loop_inv [OF sel _ _ _ ok1]
  have inv: "length selected = ?degree" "distinct selected"
      "\<forall>x\<in>set selected. 0 \<le> x \<and> x < int ?n"
    and "\<exists>used. rnd1 = used @ rest
           \<and> selected = fold (\<lambda>r s. Set_add s (randomIndex fl ?n r)) used []"
    by simp_all
  then obtain used where used: "rnd1 = used @ rest"
      "selected = fold (\<lambda>r s. Set_add s (randomIndex fl ?n r)) used []"
    by blast
  have valid: "\<forall>index\<in>set selected. 0 \<le> index \<and> index < int (length (this_indices this))"
    using inv(3) k1 by (simp add: f(5))
  have lens: "\<forall>s\<in>set (this_indices this). length s = this_sliceSize this"
    using sliceData_slices_length [OF f(4)] by (simp add: f(1))
  obtain acc where
    loop: "createBlock_loop this selected (replicate (this_sliceSize this) 0) = Inr acc"
    using createBlock_loop_fold [OF valid lens, of "replicate (this_sliceSize this) 0"]
    by simp
  define block where
    "block = \<lparr>block_k = this_k this, block_bytes = this_bytes this,
              block_checksum = this_checksum this, block_indices = selected,
              block_data = acc\<rparr>"
  have res: "result = Inr (block, this, rest)"
    using run rnd sel
    by (simp add: fountain_next_def getRandomIndices_def createBlock_def loop block_def)
  have ne: "selected \<noteq> []"
    using inv(1) deg(1) by auto
  have rng: "\<forall>i\<in>set selected. 0 \<le> i \<and> i < this_k this"
    using inv(3) k1 by simp
  show ?thesis
    using res rnd used ne inv(1,2) rng
    by (intro exI [of _ block] exI [of _ rest] exI [of _ used] exI [of _ r0])
       (simp add: block_def)
qed

lemma fountain_blocks:
  assumes c: "LtEncoder_constructor deflate payload sliceSize compress = Some (Inr this)"
    and k1: "1 \<le> this_k this"
    and ok: "\<forall>r\<in>set rnd. draw_ok fl (nat (this_k this)) r"
    and run: "fountain fl this n rnd = Some result"
  shows "\<exists>blocks. result = Inr blocks \<and> length blocks = n
    \<and> (\<forall>block\<in>set blocks.
          block_indices block \<noteq> [] \<and> distinct (block_indices block)
        \<and> (\<forall>i\<in>set (block_indices block). 0 \<le> i \<and> i < this_k this)
        \<and> block_k block = this_k this)"
  using ok run
proof (induction n arbitrary: rnd result)
  case 0
  then show ?case by simp
next
  case (Suc n)
  from Suc.prems(2) obtain r1 where r1: "fountain_next fl this rnd = Some r1"
    by (auto split: option.splits)
  from fountain_next_block [OF c k1 Suc.prems(1) r1] obtain block rest used r0 where
    b: "r1 = Inr (block, this, rest)" "rnd = r0 # used @ rest"
       "block_indices block \<noteq> []" "distinct (block_indices block)"
       "\<forall>i\<in>set (block_indices block). 0 \<le> i \<and> i < this_k this"
       "block_k block = this_k this"
    by blast
  have ok': "\<forall>r\<in>set rest. draw_ok fl (nat (this_k this)) r"
    using Suc.prems(1) b(2) by simp
  from Suc.prems(2) r1 b(1) obtain r2 where r2: "fountain fl this n rest = Some r2"
    by (auto split: option.splits)
  from Suc.IH [OF ok' r2] obtain blocks where
    bs: "r2 = Inr blocks" "length blocks = n"
        "\<forall>block\<in>set blocks.
          block_indices block \<noteq> [] \<and> distinct (block_indices block)
        \<and> (\<forall>i\<in>set (block_indices block). 0 \<le> i \<and> i < this_k this)
        \<and> block_k block = this_k this"
    by blast
  have "result = Inr (block # blocks)"
    using Suc.prems(2) r1 b(1) r2 bs(1) by simp
  then show ?case
    using b bs by (intro exI [of _ "block # blocks"]) simp
qed

lemma example_encoder_constructed:
  "LtEncoder_constructor id [1, 2, 3, 4, 5] 2 False = Some (Inr example_encoder)"
proof -
  have "sliceData [1, 2, 3, 4, 5] 2 = Some (Inr [[1, 2], [3, 4], [5, 0]])"
    by code_simp
  then show ?thesis
    by (simp add: LtEncoder_constructor_def Let_def example_encoder_def)
qed

lemma empty_encoder_constructed:
  "LtEncoder_constructor deflate [] 2 False = Some (Inr empty_encoder)"
  by (simp add: LtEncoder_constructor_def Let_def empty_encoder_def sliceData_empty)

lemma soliton_table_3: "soliton_table (\<lambda>x. x) 3 = [1 / 3, 5 / 6, 1]"
  by (simp add: soliton_table_def probabilities_loop.simps numeral_3_eq_3)

lemma example_fountain:
  "fountain (\<lambda>x. x) example_encoder 1 [1 / 2, 9 / 10, 1 / 10] =
   Some (Inr [\<lparr>block_k = 3, block_bytes = 5, block_checksum = getChecksum [1, 2, 3, 4, 5] 3,
               block_indices = [2, 0], block_data = [4, 2]\<rparr>])"
proof -
  have d: "getRandomDegree (\<lambda>x. x) 3 (1 / 2) = 2"
    by (simp add: getRandomDegree_def soliton_table_3)
  have i: "getRandomIndices (\<lambda>x. x) 3 2 [9 / 10, 1 / 10] = Some ([2, 0], [])"
    by (simp add: getRandomIndices_def getRandomIndices_loop.simps Set_add_def randomIndex_def)
  have x1: "createBlock_xor 2 [5, 0] 0 [0, 0] = [5, 0]"
    by (simp add: createBlock_xor.simps byte_at_def)
  have x2: "createBlock_xor 2 [1, 2] 0 [5, 0] = [4, 2]"
    by (simp add: createBlock_xor.simps byte_at_def)
  have z: "replicate 2 (0 :: u8) = [0, 0]"
    by (simp add: numeral_2_eq_2)
  have b: "createBlock example_encoder [2, 0] =
     Inr (\<lparr>block_k = 3, block_bytes = 5, block_checksum = getChecksum [1, 2, 3, 4, 5] 3,
               block_indices = [2, 0], block_data = [4, 2]\<rparr>, example_encoder)"
    by (simp add: createBlock_def example_encoder_def slice_at_def z x1 x2)
  have n: "fountain_next (\<lambda>x. x) example_encoder [1 / 2, 9 / 10, 1 / 10] =
     Some (Inr (\<lparr>block_k = 3, block_bytes = 5, block_checksum = getChecksum [1, 2, 3, 4, 5] 3,
               block_indices = [2, 0], block_data = [4, 2]\<rparr>, example_encoder, []))"
    using d i b by (simp add: fountain_next_def example_encoder_def)
  show ?thesis
    using n by (simp add: numeral_eq_Suc)
qed

lemma empty_fountain:
  "fountain fl empty_encoder 1 [r0, r1] = Some (Inl TypeError)"
proof -
  have d: "getRandomDegree fl 0 r0 = 1"
    by (simp add: getRandomDegree_def)
  have i: "getRandomIndices fl 0 1 [r1] = Some ([\<lfloor>fl 0\<rfloor>], [])"
    by (simp add: getRandomIndices_def getRandomIndices_loop.simps Set_add_def randomIndex_def)
  have b: "createBlock empty_encoder [\<lfloor>fl 0\<rfloor>] = Inl TypeError"
    by (simp add: createBlock_def empty_encoder_def slice_at_def)
  have "fountain_next fl empty_encoder [r0, r1] = Some (Inl TypeError)"
    using d i b by (simp add: fountain_next_def empty_encoder_def)
  then show ?thesis
    by simp
qed


text \<open>
  C10. The claim: the indices of every emitted block are non-empty, distinct, in
  \<open>[0, k)\<close> and in ascending order. \<open>getRandomIndices\<close> returns \<open>Array.from\<close> of its
  \<open>Set\<close>, which is the order of insertion, and nothing sorts it: with the draws
  \<open>1/2, 9/10, 1/10\<close> the encoder of \<open>[1, 2, 3, 4, 5]\<close> with slices of 2 bytes emits a
  block with indices \<open>[2, 0]\<close>.
\<close>

theorem fountain_indices_unsorted:
  "\<exists>this block.
      LtEncoder_constructor id [1, 2, 3, 4, 5] 2 False = Some (Inr this)
    \<and> fountain (\<lambda>x. x) this 1 [1 / 2, 9 / 10, 1 / 10] = Some (Inr [block])
    \<and> block_indices block = [2, 0]
    \<and> \<not> sorted (block_indices block)"
  using example_encoder_constructed example_fountain by simp

text \<open>
  C10, amended. For an encoder with \<open>k \<ge> 1\<close> built by the constructor, every block that
  the stream yields has indices that are non-empty, distinct and in \<open>[0, k)\<close>; their
  number is the degree that was drawn, and they stand in the order in which the draws
  first named them (not sorted).
\<close>

theorem fountain_indices:
  assumes "LtEncoder_constructor deflate payload sliceSize compress = Some (Inr this)"
    and "1 \<le> this_k this"
    and "\<forall>r\<in>set rnd. draw_ok fl (nat (this_k this)) r"
  shows "(\<forall>n result. fountain fl this n rnd = Some result \<longrightarrow>
           (\<exists>blocks. result = Inr blocks \<and> length blocks = n
             \<and> (\<forall>block\<in>set blocks.
                   block_indices block \<noteq> [] \<and> distinct (block_indices block)
                 \<and> (\<forall>i\<in>set (block_indices block). 0 \<le> i \<and> i < this_k this)
                 \<and> block_k block = this_k this)))
       \<and> (\<forall>result. fountain_next fl this rnd = Some result \<longrightarrow>
           (\<exists>block rest used r0.
               result = Inr (block, this, rest) \<and> rnd = r0 # used @ rest
             \<and> block_indices block \<noteq> [] \<and> distinct (block_indices block)
             \<and> (\<forall>i\<in>set (block_indices block). 0 \<le> i \<and> i < this_k this)
             \<and> length (block_indices block) = getRandomDegree fl (nat (this_k this)) r0
             \<and> block_indices block =
                   fold (\<lambda>r s. Set_add s (randomIndex fl (nat (this_k this)) r)) used []
             \<and> block_k block = this_k this))"
proof (intro conjI allI impI)
  fix n result
  assume "fountain fl this n rnd = Some result"
  from fountain_blocks [OF assms this]
  show "\<exists>blocks. result = Inr blocks \<and> length blocks = n
             \<and> (\<forall>block\<in>set blocks.
                   block_indices block \<noteq> [] \<and> distinct (block_indices block)
                 \<and> (\<forall>i\<in>set (block_indices block). 0 \<le> i \<and> i < this_k this)
                 \<and> block_k block = this_k this)" .
next
  fix result
  assume "fountain_next fl this rnd = Some result"
  from fountain_next_block [OF assms this]
  show "\<exists>block rest used r0.
               result = Inr (block, this, rest) \<and> rnd = r0 # used @ rest
             \<and> block_indices block \<noteq> [] \<and> distinct (block_indices block)
             \<and> (\<forall>i\<in>set (block_indices block). 0 \<le> i \<and> i < this_k this)
             \<and> length (block_indices block) = getRandomDegree fl (nat (this_k this)) r0
             \<and> block_indices block =
                   fold (\<lambda>r s. Set_add s (randomIndex fl (nat (this_k this)) r)) used []
             \<and> block_k block = this_k this" .
qed

theorem fountain_indices_witness:
  "\<exists>blocks. fountain (\<lambda>x. x) example_encoder 1 [1 / 2, 9 / 10, 1 / 10] = Some (Inr blocks)
     \<and> length blocks = 1
     \<and> (\<exists>block. blocks = [block] \<and> block_indices block = [2, 0]
           \<and> distinct (block_indices block))"
proof -
  have k1: "1 \<le> this_k example_encoder"
    by (simp add: example_encoder_def)
  have ok: "\<forall>r\<in>set [1 / 2, 9 / 10, 1 / 10]. draw_ok (\<lambda>x. x) (nat (this_k example_encoder)) r"
    by (simp add: draw_ok_def example_encoder_def)
  from fountain_indices [OF example_encoder_constructed k1 ok]
  have "\<forall>n result. fountain (\<lambda>x. x) example_encoder n [1 / 2, 9 / 10, 1 / 10] = Some result \<longrightarrow>
           (\<exists>blocks. result = Inr blocks \<and> length blocks = n
             \<and> (\<forall>block\<in>set blocks.
                   block_indices block \<noteq> [] \<and> distinct (block_indices block)
                 \<and> (\<forall>i\<in>set (block_indices block). 0 \<le> i \<and> i < this_k example_encoder)
                 \<and> block_k block = this_k example_encoder))"
    by blast
  from this [rule_format, OF example_fountain] obtain blocks where
    b: "Inr [\<lparr>block_k = 3, block_bytes = 5, block_checksum = getChecksum [1, 2, 3, 4, 5] 3,
               block_indices = [2, 0], block_data = [4, 2]\<rparr>] = (Inr blocks :: error + EncodedBlock list)"
       "length blocks = 1"
       "\<forall>block\<in>set blocks. block_indices block \<noteq> [] \<and> distinct (block_indices block)"
    by blast
  then show ?thesis
    using example_fountain by auto
qed

text \<open>
  C4. The claim: construction fails with EmptyPayload exactly when the payload is empty.
  The constructor has no such check: for an empty payload it returns an encoder with
  \<open>k = 0\<close> (whose first block then raises a TypeError).
\<close>

theorem constructor_accepts_empty_payload:
  "\<exists>this. LtEncoder_constructor id [] 2 False = Some (Inr this) \<and> this_k this = 0
     \<and> fountain (\<lambda>x. x) this 1 [1 / 2, 1 / 2] = Some (Inl TypeError)"
  using empty_encoder_constructed [of id] empty_fountain [of "\<lambda>x. x" "1 / 2" "1 / 2"]
  by (simp add: empty_encoder_def)

text \<open>
  C4, amended. Construction raises no error: for every payload and \<open>sliceSize \<ge> 1\<close> it
  returns an encoder with \<open>k = slices.length\<close>, and \<open>k \<ge> 1\<close> exactly when the (possibly
  compressed) payload is non-empty. After construction from a non-empty payload the
  generation of blocks raises no error.
\<close>

theorem constructor_never_fails:
  assumes "1 \<le> sliceSize"
  shows "\<exists>this.
      LtEncoder_constructor deflate payload sliceSize compress = Some (Inr this)
    \<and> this_compressed this = (if compress then deflate payload else payload)
    \<and> this_k this = int (length (this_indices this))
    \<and> (1 \<le> this_k this \<longleftrightarrow> this_compressed this \<noteq> [])
    \<and> (this_compressed this \<noteq> [] \<longrightarrow>
         (\<forall>fl n rnd e. (\<forall>r\<in>set rnd. draw_ok fl (nat (this_k this)) r) \<longrightarrow>
            fountain fl this n rnd \<noteq> Some (Inl e)))"
proof -
  define compressed where "compressed = (if compress then deflate payload else payload)"
  define slices where "slices = map (\<lambda>j. padded_chunk compressed sliceSize (j * sliceSize))
                        [0..<(length compressed + sliceSize - 1) div sliceSize]"
  define this where "this =
    \<lparr>this_data = payload, this_sliceSize = sliceSize, this_compress = compress,
     this_compressed = compressed, this_indices = slices, this_k = int (length slices),
     this_checksum = getChecksum payload (int (length slices)),
     this_bytes = int (length compressed)\<rparr>"
  have sd: "sliceData compressed sliceSize = Some (Inr slices)"
    unfolding slices_def by (rule sliceData_result [OF assms])
  have c: "LtEncoder_constructor deflate payload sliceSize compress = Some (Inr this)"
    using sd by (simp add: LtEncoder_constructor_def Let_def compressed_def this_def)
  have "sliceSize \<le> length compressed + sliceSize - 1 \<longleftrightarrow> 0 < length compressed"
    using assms by linarith
  then have "0 < (length compressed + sliceSize - 1) div sliceSize \<longleftrightarrow> compressed \<noteq> []"
    using assms by (simp add: div_greater_zero_iff)
  then have k: "1 \<le> this_k this \<longleftrightarrow> this_compressed this \<noteq> []"
    by (simp add: this_def slices_def Suc_le_eq)
  have gen: "fountain fl this n rnd \<noteq> Some (Inl e)"
    if ne: "this_compressed this \<noteq> []" and ok: "\<forall>r\<in>set rnd. draw_ok fl (nat (this_k this)) r"
    for fl n rnd e
  proof
    assume "fountain fl this n rnd = Some (Inl e)"
    from fountain_blocks [OF c _ ok this] k ne show False
      by auto
  qed
  show ?thesis
    using c k gen by (intro exI [of _ this]) (simp add: this_def compressed_def)
qed

theorem constructor_never_fails_witness:
  "\<exists>this. LtEncoder_constructor id [1, 2, 3, 4, 5] 2 False = Some (Inr this)
     \<and> this_k this = 3
     \<and> fountain (\<lambda>x. x) this 1 [1 / 2, 9 / 10, 1 / 10] \<noteq> Some (Inl TypeError)"
proof -
  have "(1::nat) \<le> 2"
    by simp
  from constructor_never_fails [OF this, of id "[1, 2, 3, 4, 5]" False] obtain this where
    t: "LtEncoder_constructor id [1, 2, 3, 4, 5] 2 False = Some (Inr this)"
       "this_compressed this \<noteq> [] \<longrightarrow>
         (\<forall>fl n rnd e. (\<forall>r\<in>set rnd. draw_ok fl (nat (this_k this)) r) \<longrightarrow>
            fountain fl this n rnd \<noteq> Some (Inl e))"
    by blast
  from t(1) have e: "this = example_encoder"
    by (simp add: example_encoder_constructed)
  have ne: "this_compressed this \<noteq> []" and k: "this_k this = 3"
    by (simp_all add: e example_encoder_def)
  have ok: "\<forall>r\<in>set [1 / 2, 9 / 10, 1 / 10]. draw_ok (\<lambda>x. x) (nat (this_k this)) r"
    by (simp add: draw_ok_def k)
  from t(2) ne ok have "fountain (\<lambda>x. x) this 1 [1 / 2, 9 / 10, 1 / 10] \<noteq> Some (Inl TypeError)"
    by blast
  with t(1) k show ?thesis
    by blast
qed

end
